theory Spec2Isabelle
  imports Complex_Main
begin

section \<open>Data model of memory_allocation_engine.py\<close>

text \<open>
  The engine of the memory allocation tracker: a block list partitioning the simulated
  memory, a page table (frame index to owner), a dictionary of live processes, an event
  log and three counters. Addresses, sizes and process ids are Python ints (\<open>int\<close>);
  list indices (frame ids, page ids, block indices) are \<open>nat\<close>.

  Wall-clock fields (\<open>allocated_time\<close>, \<open>allocation_time\<close>, \<open>timestamp\<close>) come from
  \<open>time.time()\<close>, are never read by the engine, and are left out. The \<open>size\<close> and
  \<open>process_id\<close> attributes occur in several classes; the fields are named
  \<open>size_b\<close>/\<open>process_id\<close> for MemoryBlock, \<open>proc_id\<close>/\<open>proc_size\<close> for Process and
  \<open>event_process_id\<close> for MemoryEvent.
\<close>

datatype AllocationMethod = PAGING | SEGMENTATION

record MemoryBlock =
  start :: int
  size_b :: int
  process_id :: "int option"

definition MemoryBlock_new :: "int \<Rightarrow> int \<Rightarrow> int option \<Rightarrow> MemoryBlock" where
  "MemoryBlock_new st sz owner = \<lparr>start = st, size_b = sz, process_id = owner\<rparr>"

definition end_b :: "MemoryBlock \<Rightarrow> int" where
  "end_b b = start b + size_b b - 1"

definition is_free :: "MemoryBlock \<Rightarrow> bool" where
  "is_free b = (process_id b = None)"

record Page =
  page_id :: nat
  frame_id :: "nat option"

record Process =
  proc_id :: int
  proc_size :: int
  pages :: "Page list"
  segments :: "MemoryBlock list"

text \<open>
  The detail text of an event is an f-string; it is kept as the constructor naming the
  message together with the numbers that the f-string interpolates.
\<close>

datatype Details =
    ProcessAlreadyExists
  | NotEnoughFreeFrames int nat
  | AllocatedPages int int
  | NoSuitableFreeBlock int int
  | AllocatedSegment int int
  | ProcessNotFound
  | DeallocatedProcess int

record MemoryEvent =
  event_type :: string
  event_process_id :: int
  details :: Details

record MemoryManager =
  total_memory_size :: int
  page_size :: int
  total_frames :: int
  memory_blocks :: "MemoryBlock list"
  page_table :: "int option list"
  processes :: "int \<rightharpoonup> Process"
  events :: "MemoryEvent list"
  page_faults :: int
  external_fragmentation :: real
  internal_fragmentation :: int

datatype py_error = ZeroDivisionError

section \<open>Construction\<close>

text \<open>
  \<open>MemoryManager.__init__\<close>: the only statement that can raise is the floor division
  \<open>total_memory_size // page_size\<close>. \<open>[None] * n\<close> is the empty list for negative \<open>n\<close>.
\<close>

definition init :: "int \<Rightarrow> int \<Rightarrow> py_error + MemoryManager" where
  "init total_size ps =
     (if ps = 0 then Inl ZeroDivisionError
      else Inr \<lparr>total_memory_size = total_size,
                page_size = ps,
                total_frames = total_size div ps,
                memory_blocks = [MemoryBlock_new 0 total_size None],
                page_table = replicate (nat (total_size div ps)) None,
                processes = Map.empty,
                events = [],
                page_faults = 0,
                external_fragmentation = 0,
                internal_fragmentation = 0\<rparr>)"

definition log_event :: "MemoryManager \<Rightarrow> string \<Rightarrow> int \<Rightarrow> Details \<Rightarrow> MemoryManager" where
  "log_event s ty pid d =
     s\<lparr>events := events s @ [\<lparr>event_type = ty, event_process_id = pid, details = d\<rparr>]\<rparr>"

section \<open>Block list primitives\<close>

text \<open>Python's \<open>list.insert(i, x)\<close> for \<open>0 \<le> i\<close>.\<close>

definition insert_at :: "nat \<Rightarrow> 'a \<Rightarrow> 'a list \<Rightarrow> 'a list" where
  "insert_at i x xs = take i xs @ x # drop i xs"

text \<open>
  \<open>_split_block_for_page\<close>. The index always comes from an enumeration of the block
  list, so \<open>memory_blocks[block_idx]\<close> is in range.
\<close>

definition split_block_for_page ::
    "MemoryBlock list \<Rightarrow> nat \<Rightarrow> int \<Rightarrow> int \<Rightarrow> int \<Rightarrow> MemoryBlock list" where
  "split_block_for_page bs block_idx frame_start psz pid =
     (let block = bs ! block_idx;
          (bs1, idx1) =
             (if start block < frame_start
              then (insert_at block_idx
                      (MemoryBlock_new (start block) (frame_start - start block) None) bs,
                    block_idx + 1)
              else (bs, block_idx));
          allocated_block = MemoryBlock_new frame_start psz (Some pid)
      in if end_b block > frame_start + psz - 1
         then (let post_start = frame_start + psz;
                   post_size = end_b block - post_start + 1;
                   post_block = MemoryBlock_new post_start post_size None
               in insert_at (idx1 + 1) post_block (bs1[idx1 := allocated_block]))
         else bs1[idx1 := allocated_block])"

text \<open>
  The inner search loop of \<open>_allocate_paging\<close>: index of the first free block that
  contains the whole frame span, if any.
\<close>

fun find_block_for_frame :: "MemoryBlock list \<Rightarrow> int \<Rightarrow> int \<Rightarrow> nat option" where
  "find_block_for_frame [] frame_start psz = None"
| "find_block_for_frame (b # bs) frame_start psz =
     (if is_free b \<and> start b \<le> frame_start \<and> end_b b \<ge> frame_start + psz - 1
      then Some 0
      else map_option Suc (find_block_for_frame bs frame_start psz))"

text \<open>The first-fit search loop of \<open>_allocate_segmentation\<close>.\<close>

fun find_first_fit :: "MemoryBlock list \<Rightarrow> int \<Rightarrow> nat option" where
  "find_first_fit [] sz = None"
| "find_first_fit (b # bs) sz =
     (if is_free b \<and> size_b b \<ge> sz then Some 0
      else map_option Suc (find_first_fit bs sz))"

text \<open>
  \<open>_merge_adjacent_free_blocks\<close>. The while loop keeps an index \<open>i\<close>; everything
  left of \<open>i\<close> is final. When blocks \<open>i\<close> and \<open>i + 1\<close> are both free they are replaced
  by one block and \<open>i\<close> stays; otherwise \<open>i\<close> advances. The recursion below runs on
  the part of the list from \<open>i\<close> on.
\<close>

fun merge_adjacent_free_blocks :: "MemoryBlock list \<Rightarrow> MemoryBlock list" where
  "merge_adjacent_free_blocks (current # next_block # rest) =
     (if is_free current \<and> is_free next_block
      then merge_adjacent_free_blocks
             (MemoryBlock_new (start current) (size_b current + size_b next_block) None # rest)
      else current # merge_adjacent_free_blocks (next_block # rest))"
| "merge_adjacent_free_blocks bs = bs"

section \<open>Allocation\<close>

definition upd_process :: "MemoryManager \<Rightarrow> int \<Rightarrow> (Process \<Rightarrow> Process) \<Rightarrow> MemoryManager" where
  "upd_process s pid f =
     s\<lparr>processes := (\<lambda>k. if k = pid then map_option f (processes s k) else processes s k)\<rparr>"

text \<open>The free-frame comprehension of \<open>_allocate_paging\<close>.\<close>

definition free_frames :: "int option list \<Rightarrow> nat list" where
  "free_frames pt = filter (\<lambda>i. pt ! i = None) [0..<length pt]"

text \<open>
  One iteration of the page loop of \<open>_allocate_paging\<close> for page \<open>i\<close> on frame \<open>f\<close>:
  append the page to the process, set the page-table entry, and split the first free
  block containing the frame span (no block list change when the search finds none).
\<close>

definition assign_page :: "int \<Rightarrow> nat \<Rightarrow> nat \<Rightarrow> MemoryManager \<Rightarrow> MemoryManager" where
  "assign_page pid i f s =
     (let s1 = upd_process s pid
                 (\<lambda>p. p\<lparr>pages := pages p @ [\<lparr>page_id = i, frame_id = Some f\<rparr>]\<rparr>);
          s2 = s1\<lparr>page_table := (page_table s1)[f := Some pid]\<rparr>;
          frame_start = int f * page_size s2
      in case find_block_for_frame (memory_blocks s2) frame_start (page_size s2) of
           None \<Rightarrow> s2
         | Some j \<Rightarrow>
             s2\<lparr>memory_blocks :=
                  split_block_for_page (memory_blocks s2) j frame_start (page_size s2) pid\<rparr>)"

text \<open>
  \<open>num_pages_needed\<close> of \<open>_allocate_paging\<close>. The floor division raises for a page
  size of 0; the constructor has already raised for such a page size, so no engine has
  one, and the statements about calls assume a nonzero page size.
\<close>

definition num_pages_needed :: "MemoryManager \<Rightarrow> int \<Rightarrow> int" where
  "num_pages_needed s sz = (sz + page_size s - 1) div page_size s"

definition allocate_paging :: "MemoryManager \<Rightarrow> Process \<Rightarrow> bool \<times> MemoryManager" where
  "allocate_paging s process =
     (let n = num_pages_needed s (proc_size process);
          ff = free_frames (page_table s)
      in if int (length ff) < n
         then (False,
               (log_event s ''PAGE_FAULT'' (proc_id process)
                  (NotEnoughFreeFrames n (length ff)))
               \<lparr>page_faults := page_faults s + 1\<rparr>)
         else
           (let s1 = fold (\<lambda>i. assign_page (proc_id process) i (ff ! i)) [0..<nat n] s;
                last_page_size = proc_size process mod page_size s1;
                s2 = (if last_page_size > 0
                      then s1\<lparr>internal_fragmentation :=
                                 internal_fragmentation s1 + (page_size s1 - last_page_size)\<rparr>
                      else s1)
            in (True, log_event s2 ''ALLOCATION'' (proc_id process)
                        (AllocatedPages n (proc_id process)))))"

text \<open>\<open>max(..., default=0)\<close> over a generator.\<close>

definition max_default :: "int list \<Rightarrow> int \<Rightarrow> int" where
  "max_default xs d = (case xs of [] \<Rightarrow> d | x # rest \<Rightarrow> fold max rest x)"

text \<open>
  \<open>_calculate_external_fragmentation\<close>. Python's true division yields a float; the
  quotient is taken exactly here (in \<open>real\<close>), so rounding of the float is not modelled.
\<close>

definition fragmentation_ratio :: "MemoryBlock list \<Rightarrow> real" where
  "fragmentation_ratio bs =
     (let total_free = sum_list (map size_b (filter is_free bs));
          largest_free = max_default (map size_b (filter is_free bs)) 0
      in if total_free > 0 then 1 - (real_of_int largest_free / real_of_int total_free)
         else 0)"

definition calculate_external_fragmentation :: "MemoryManager \<Rightarrow> MemoryManager" where
  "calculate_external_fragmentation s =
     s\<lparr>external_fragmentation := fragmentation_ratio (memory_blocks s)\<rparr>"

definition allocate_segmentation :: "MemoryManager \<Rightarrow> Process \<Rightarrow> bool \<times> MemoryManager" where
  "allocate_segmentation s process =
     (case find_first_fit (memory_blocks s) (proc_size process) of
        None \<Rightarrow>
          (False,
           calculate_external_fragmentation
             (log_event s ''ERROR'' (proc_id process)
                (NoSuitableFreeBlock (proc_id process) (proc_size process))))
      | Some idx \<Rightarrow>
          (let block = memory_blocks s ! idx;
               segment = MemoryBlock_new (start block) (proc_size process)
                           (Some (proc_id process));
               s1 = upd_process s (proc_id process)
                      (\<lambda>p. p\<lparr>segments := segments p @ [segment]\<rparr>);
               bs = (if size_b block > proc_size process
                     then insert_at (idx + 1)
                            (MemoryBlock_new (start block + proc_size process)
                               (size_b block - proc_size process) None)
                            ((memory_blocks s1)[idx := segment])
                     else (memory_blocks s1)[idx := segment]);
               s2 = s1\<lparr>memory_blocks := bs\<rparr>
           in (True, log_event s2 ''ALLOCATION'' (proc_id process)
                       (AllocatedSegment (proc_id process) (start segment)))))"

text \<open>
  \<open>allocate_process\<close>. The Process object is stored in the dictionary before the
  strategy runs, and the strategy mutates that same object.
\<close>

definition allocate_process ::
    "MemoryManager \<Rightarrow> int \<Rightarrow> int \<Rightarrow> AllocationMethod \<Rightarrow> bool \<times> MemoryManager" where
  "allocate_process s pid sz meth =
     (if processes s pid \<noteq> None
      then (False, log_event s ''ERROR'' pid ProcessAlreadyExists)
      else
        (let process = \<lparr>proc_id = pid, proc_size = sz, pages = [], segments = []\<rparr>;
             s1 = s\<lparr>processes := (processes s)(pid \<mapsto> process)\<rparr>
         in case meth of
              PAGING \<Rightarrow> allocate_paging s1 process
            | SEGMENTATION \<Rightarrow> allocate_segmentation s1 process))"

section \<open>Deallocation\<close>

definition free_block :: "MemoryBlock \<Rightarrow> MemoryBlock" where
  "free_block b = MemoryBlock_new (start b) (size_b b) None"

text \<open>
  \<open>_deallocate_paging\<close>: clear the page-table entry of every page, free every block
  owned by the process, merge. Frame ids were taken from an enumeration of the page
  table, whose length never changes, so the index assignment is in range.
\<close>

definition release_page :: "Page \<Rightarrow> int option list \<Rightarrow> int option list" where
  "release_page pg pt = (case frame_id pg of None \<Rightarrow> pt | Some f \<Rightarrow> pt[f := None])"

definition release_blocks :: "int \<Rightarrow> MemoryBlock list \<Rightarrow> MemoryBlock list" where
  "release_blocks pid bs =
     map (\<lambda>b. if process_id b = Some pid then free_block b else b) bs"

definition deallocate_paging :: "MemoryManager \<Rightarrow> Process \<Rightarrow> MemoryManager" where
  "deallocate_paging s process =
     s\<lparr>page_table := fold release_page (pages process) (page_table s),
       memory_blocks :=
         merge_adjacent_free_blocks (release_blocks (proc_id process) (memory_blocks s))\<rparr>"

text \<open>
  The inner loop of \<open>_deallocate_segmentation\<close>: free the first block that starts at
  the segment's start and is owned by the process, then stop.
\<close>

fun free_first_match :: "int \<Rightarrow> int \<Rightarrow> MemoryBlock list \<Rightarrow> MemoryBlock list" where
  "free_first_match st pid [] = []"
| "free_first_match st pid (b # bs) =
     (if start b = st \<and> process_id b = Some pid then free_block b # bs
      else b # free_first_match st pid bs)"

definition deallocate_segmentation :: "MemoryManager \<Rightarrow> Process \<Rightarrow> MemoryManager" where
  "deallocate_segmentation s process =
     s\<lparr>memory_blocks :=
         merge_adjacent_free_blocks
           (fold (\<lambda>segment. free_first_match (start segment) (proc_id process))
              (segments process) (memory_blocks s))\<rparr>"

definition deallocate_process :: "MemoryManager \<Rightarrow> int \<Rightarrow> bool \<times> MemoryManager" where
  "deallocate_process s pid =
     (case processes s pid of
        None \<Rightarrow> (False, log_event s ''ERROR'' pid ProcessNotFound)
      | Some process \<Rightarrow>
          (let s1 = (if pages process \<noteq> [] then deallocate_paging s process
                     else if segments process \<noteq> [] then deallocate_segmentation s process
                     else s);
               s2 = s1\<lparr>processes := (processes s1)(pid := None)\<rparr>
           in (True, log_event s2 ''DEALLOCATION'' pid (DeallocatedProcess pid))))"

section \<open>Statistics\<close>

text \<open>
  \<open>get_memory_stats\<close> reads the state and returns a dictionary; it assigns nothing.
  \<open>used_percentage\<close> divides by \<open>total_memory_size\<close>.
\<close>

record MemoryStats =
  stat_total_memory :: int
  stat_used_memory :: int
  stat_free_memory :: int
  stat_used_percentage :: real
  stat_page_faults :: int
  stat_external_fragmentation :: real
  stat_internal_fragmentation :: int
  stat_process_count :: nat

definition get_memory_stats :: "MemoryManager \<Rightarrow> py_error + MemoryStats" where
  "get_memory_stats s =
     (let used_memory = sum_list (map size_b (filter (\<lambda>b. \<not> is_free b) (memory_blocks s)));
          free_memory = total_memory_size s - used_memory
      in if total_memory_size s = 0 then Inl ZeroDivisionError
         else Inr \<lparr>stat_total_memory = total_memory_size s,
                   stat_used_memory = used_memory,
                   stat_free_memory = free_memory,
                   stat_used_percentage =
                     (real_of_int used_memory / real_of_int (total_memory_size s)) * 100,
                   stat_page_faults = page_faults s,
                   stat_external_fragmentation = external_fragmentation s,
                   stat_internal_fragmentation = internal_fragmentation s,
                   stat_process_count = card (dom (processes s))\<rparr>)"

section \<open>Histories of calls\<close>

datatype Call = Allocate int int AllocationMethod | Deallocate int

fun call :: "Call \<Rightarrow> MemoryManager \<Rightarrow> bool \<times> MemoryManager" where
  "call (Allocate pid sz meth) s = allocate_process s pid sz meth"
| "call (Deallocate pid) s = deallocate_process s pid"

definition run :: "MemoryManager \<Rightarrow> Call list \<Rightarrow> MemoryManager" where
  "run s cs = fold (\<lambda>c s. snd (call c s)) cs s"

section \<open>Predicates on states and example engines\<close>

text \<open>States that the public interface can produce: a constructed engine, and the state
  after any call on such a state.\<close>

inductive reachable :: "MemoryManager \<Rightarrow> bool" where
  reachable_init: "init total_size ps = Inr s \<Longrightarrow> reachable s"
| reachable_call: "reachable s \<Longrightarrow> reachable (snd (call c s))"

text \<open>A block list is a chain from \<open>a\<close> to \<open>z\<close> when every block has positive length,
  the first starts at \<open>a\<close>, each next block starts where the previous one stops, and the
  last stops at \<open>z\<close>.\<close>

fun chain :: "int \<Rightarrow> MemoryBlock list \<Rightarrow> int \<Rightarrow> bool" where
  "chain a [] z = (a = z)"
| "chain a (b # bs) z = (start b = a \<and> 0 < size_b b \<and> chain (a + size_b b) bs z)"

definition no_adjacent_free :: "MemoryBlock list \<Rightarrow> bool" where
  "no_adjacent_free bs = successively (\<lambda>a b. \<not> (is_free a \<and> is_free b)) bs"

definition range_invariant :: "int \<Rightarrow> MemoryBlock list \<Rightarrow> bool" where
  "range_invariant total_size bs = (chain 0 bs total_size \<and> no_adjacent_free bs)"

definition owned_blocks :: "int \<Rightarrow> MemoryBlock list \<Rightarrow> MemoryBlock list" where
  "owned_blocks pid bs = filter (\<lambda>b. process_id b = Some pid) bs"

definition covers :: "MemoryBlock \<Rightarrow> int \<Rightarrow> bool" where
  "covers b a = (start b \<le> a \<and> a < start b + size_b b)"

text \<open>Every address of \<open>[lo, hi)\<close> lies in a block whose owner field is \<open>ow\<close>
  (\<open>None\<close> for free).\<close>

definition span_owned_by :: "MemoryBlock list \<Rightarrow> int \<Rightarrow> int \<Rightarrow> int option \<Rightarrow> bool" where
  "span_owned_by bs lo hi ow =
     (\<forall>a\<in>{lo..<hi}. \<exists>b\<in>set bs. covers b a \<and> process_id b = ow)"

definition frames_agree :: "MemoryManager \<Rightarrow> bool" where
  "frames_agree s =
     (\<forall>f<length (page_table s). \<forall>ow.
        (page_table s ! f = ow) =
        span_owned_by (memory_blocks s) (int f * page_size s) ((int f + 1) * page_size s) ow)"

text \<open>The blocks that replace a free block \<open>b\<close> when the frame span starting at
  \<open>frame_start\<close> is carved out of it: an optional free prefix, the owned frame, an
  optional free suffix.\<close>

definition split_result :: "MemoryBlock \<Rightarrow> int \<Rightarrow> int \<Rightarrow> int \<Rightarrow> MemoryBlock list" where
  "split_result b frame_start psz pid =
     (if start b < frame_start
      then [MemoryBlock_new (start b) (frame_start - start b) None] else [])
     @ MemoryBlock_new frame_start psz (Some pid)
     # (if end_b b > frame_start + psz - 1
        then [MemoryBlock_new (frame_start + psz) (end_b b - (frame_start + psz) + 1) None]
        else [])"

text \<open>The blocks that replace a free block \<open>b\<close> when a segment of \<open>sz\<close> units is
  placed at its start.\<close>

definition segment_result :: "MemoryBlock \<Rightarrow> int \<Rightarrow> int \<Rightarrow> MemoryBlock list" where
  "segment_result b sz pid =
     MemoryBlock_new (start b) sz (Some pid)
     # (if size_b b > sz then [MemoryBlock_new (start b + sz) (size_b b - sz) None] else [])"

text \<open>Consistency of the process dictionary with the block list and the frame table:
  no two neighbouring blocks are free; an id that is not live owns no frame and no block;
  a live process owns exactly the frames of its pages, and a process without pages owns
  exactly the blocks listed as its segments.\<close>

definition wf_state :: "MemoryManager \<Rightarrow> bool" where
  "wf_state s =
     (no_adjacent_free (memory_blocks s)
      \<and> (\<forall>pid. processes s pid = None \<longrightarrow>
             Some pid \<notin> set (page_table s) \<and> owned_blocks pid (memory_blocks s) = [])
      \<and> (\<forall>pid pr. processes s pid = Some pr \<longrightarrow>
             proc_id pr = pid
           \<and> (\<forall>pg\<in>set (pages pr). \<exists>f<length (page_table s). frame_id pg = Some f)
           \<and> {f. f < length (page_table s) \<and> page_table s ! f = Some pid} =
               {f. Some f \<in> frame_id ` set (pages pr)}
           \<and> (pages pr = [] \<longrightarrow> owned_blocks pid (memory_blocks s) = segments pr)))"

text \<open>A block agrees with the frame table for page size \<open>ps\<close> when its boundaries
  are multiples of the page size and every frame whose first address lies in the block
  has the block's owner.\<close>

definition frame_ok :: "int \<Rightarrow> int option list \<Rightarrow> MemoryBlock \<Rightarrow> bool" where
  "frame_ok ps pt b =
     (ps dvd start b \<and> ps dvd size_b b
      \<and> (\<forall>f<length pt. covers b (int f * ps) \<longrightarrow> pt ! f = process_id b))"

text \<open>Consistency of the frame table with the block list for page size \<open>ps\<close> and
  memory size \<open>T\<close>: the blocks form a chain over the memory, there is one frame
  per page of memory, and every block agrees with the frame table.\<close>

definition frame_inv :: "int \<Rightarrow> int \<Rightarrow> MemoryManager \<Rightarrow> bool" where
  "frame_inv T ps s =
     (page_size s = ps \<and> chain 0 (memory_blocks s) T
      \<and> length (page_table s) = nat (T div ps)
      \<and> (\<forall>b\<in>set (memory_blocks s). frame_ok ps (page_table s) b))"

fun uses_paging :: "Call \<Rightarrow> bool" where
  "uses_paging (Allocate pid sz meth) = (meth = PAGING)"
| "uses_paging (Deallocate pid) = True"

fun segment_size_positive :: "Call \<Rightarrow> bool" where
  "segment_size_positive (Allocate pid sz meth) = (meth = SEGMENTATION \<longrightarrow> 0 < sz)"
| "segment_size_positive (Deallocate pid) = True"

text \<open>A 16-unit memory with 4-unit pages, and histories on it used as examples.\<close>

definition engine_16_4 :: MemoryManager where
  "engine_16_4 = projr (init 16 4)"

definition engine_fragmented :: MemoryManager where
  "engine_fragmented =
     run engine_16_4
       [Allocate 1 4 SEGMENTATION, Allocate 2 4 SEGMENTATION, Allocate 3 4 SEGMENTATION,
        Deallocate 1]"

definition engine_full :: MemoryManager where
  "engine_full = run engine_16_4 [Allocate 1 16 PAGING]"

text \<open>The engine that the constructor returns for a total size of 16 and a page size
  of -4.\<close>

definition engine_negative_page :: MemoryManager where
  "engine_negative_page = projr (init 16 (- 4))"

definition engine_paged :: MemoryManager where
  "engine_paged = run engine_16_4 [Allocate 1 6 PAGING, Allocate 2 4 PAGING]"

section \<open>Basic facts about the operations\<close>

lemma find_first_fit_None:
  "find_first_fit bs sz = None \<longleftrightarrow> (\<forall>b\<in>set bs. \<not> (is_free b \<and> sz \<le> size_b b))"
  by (induction bs) auto


lemma find_first_fit_SomeD:
  "find_first_fit bs sz = Some i \<Longrightarrow>
     i < length bs \<and> is_free (bs ! i) \<and> sz \<le> size_b (bs ! i)
     \<and> (\<forall>x\<in>set (take i bs). \<not> (is_free x \<and> sz \<le> size_b x))"
  by (induction bs arbitrary: i) (auto split: if_splits)

lemma insert_at_append: "insert_at (Suc (length pre)) y (pre @ x # post) = pre @ x # y # post"
  by (simp add: insert_at_def)

lemma nth_fold_update:
  "f < length pt \<Longrightarrow> fold (\<lambda>i pt. pt[g i := v]) js pt ! f = (if f \<in> g ` set js then v else pt ! f)"
  by (induction js arbitrary: pt) (auto simp: nth_list_update)

lemma length_fold_update [simp]:
  "length (fold (\<lambda>i pt. pt[g i := v]) js pt) = length pt"
  by (induction js arbitrary: pt) auto

lemma assign_page_fields [simp]:
  "page_size (assign_page pid i f s) = page_size s"
  "total_memory_size (assign_page pid i f s) = total_memory_size s"
  "total_frames (assign_page pid i f s) = total_frames s"
  "events (assign_page pid i f s) = events s"
  "page_faults (assign_page pid i f s) = page_faults s"
  "external_fragmentation (assign_page pid i f s) = external_fragmentation s"
  "internal_fragmentation (assign_page pid i f s) = internal_fragmentation s"
  "page_table (assign_page pid i f s) = (page_table s)[f := Some pid]"
  "processes (assign_page pid i f s) =
     (\<lambda>k. if k = pid
          then map_option (\<lambda>p. p\<lparr>pages := pages p @ [\<lparr>page_id = i, frame_id = Some f\<rparr>]\<rparr>)
                 (processes s k)
          else processes s k)"
  by (simp_all add: assign_page_def Let_def upd_process_def split: option.splits)

lemma fold_assign_fields [simp]:
  "page_size (fold (\<lambda>i. assign_page pid i (g i)) js s) = page_size s"
  "total_memory_size (fold (\<lambda>i. assign_page pid i (g i)) js s) = total_memory_size s"
  "total_frames (fold (\<lambda>i. assign_page pid i (g i)) js s) = total_frames s"
  "events (fold (\<lambda>i. assign_page pid i (g i)) js s) = events s"
  "page_faults (fold (\<lambda>i. assign_page pid i (g i)) js s) = page_faults s"
  "external_fragmentation (fold (\<lambda>i. assign_page pid i (g i)) js s) = external_fragmentation s"
  "internal_fragmentation (fold (\<lambda>i. assign_page pid i (g i)) js s) = internal_fragmentation s"
  by (induction js arbitrary: s) simp_all

lemma fold_assign_page_table:
  "page_table (fold (\<lambda>i. assign_page pid i (g i)) js s) =
     fold (\<lambda>i pt. pt[g i := Some pid]) js (page_table s)"
  by (induction js arbitrary: s) simp_all

lemma fold_assign_processes:
  "processes (fold (\<lambda>i. assign_page pid i (g i)) js s) =
     (\<lambda>k. if k = pid
          then map_option
                 (\<lambda>p. p\<lparr>pages := pages p @ map (\<lambda>i. \<lparr>page_id = i, frame_id = Some (g i)\<rparr>) js\<rparr>)
                 (processes s k)
          else processes s k)"
proof (induction js arbitrary: s)
  case Nil
  show ?case by (auto simp: fun_eq_iff option.map_ident)
next
  case (Cons j js)
  show ?case
    by (auto simp: Cons.IH fun_eq_iff option.map_comp comp_def)
qed



lemma free_frames_set: "set (free_frames pt) = {i. i < length pt \<and> pt ! i = None}"
  by (auto simp: free_frames_def)

lemma free_frames_distinct: "distinct (free_frames pt)"
  by (simp add: free_frames_def)

lemma allocate_paging_fail:
  assumes "processes s pid = None"
    and "int (length (free_frames (page_table s))) < num_pages_needed s sz"
  shows "allocate_process s pid sz PAGING =
           (False, s\<lparr>processes := (processes s)(pid \<mapsto>
                        \<lparr>proc_id = pid, proc_size = sz, pages = [], segments = []\<rparr>),
                      events := events s @
                        [\<lparr>event_type = ''PAGE_FAULT'', event_process_id = pid,
                          details = NotEnoughFreeFrames (num_pages_needed s sz)
                                      (length (free_frames (page_table s)))\<rparr>],
                      page_faults := page_faults s + 1\<rparr>)"
  using assms
  by (simp add: allocate_process_def allocate_paging_def num_pages_needed_def log_event_def)

lemma allocate_segmentation_fail:
  assumes "processes s pid = None"
    and "find_first_fit (memory_blocks s) sz = None"
  shows "allocate_process s pid sz SEGMENTATION =
           (False, s\<lparr>processes := (processes s)(pid \<mapsto>
                        \<lparr>proc_id = pid, proc_size = sz, pages = [], segments = []\<rparr>),
                      events := events s @
                        [\<lparr>event_type = ''ERROR'', event_process_id = pid,
                          details = NoSuitableFreeBlock pid sz\<rparr>],
                      external_fragmentation := fragmentation_ratio (memory_blocks s)\<rparr>)"
  using assms
  by (simp add: allocate_process_def allocate_segmentation_def log_event_def
      calculate_external_fragmentation_def)

lemma allocate_duplicate:
  assumes "processes s pid \<noteq> None"
  shows "allocate_process s pid sz m =
           (False, s\<lparr>events := events s @
                        [\<lparr>event_type = ''ERROR'', event_process_id = pid,
                          details = ProcessAlreadyExists\<rparr>]\<rparr>)"
  using assms by (simp add: allocate_process_def log_event_def)

lemma deallocate_unknown:
  assumes "processes s pid = None"
  shows "deallocate_process s pid =
           (False, s\<lparr>events := events s @
                        [\<lparr>event_type = ''ERROR'', event_process_id = pid,
                          details = ProcessNotFound\<rparr>]\<rparr>)"
  using assms by (simp add: deallocate_process_def log_event_def)

lemma allocate_paging_success_fst:
  assumes "processes s pid = None"
    and "\<not> int (length (free_frames (page_table s))) < num_pages_needed s sz"
  shows "fst (allocate_process s pid sz PAGING) = True"
  using assms
  by (simp add: allocate_process_def allocate_paging_def num_pages_needed_def Let_def)

lemma allocate_segmentation_success_fst:
  assumes "processes s pid = None"
    and "find_first_fit (memory_blocks s) sz = Some i"
  shows "fst (allocate_process s pid sz SEGMENTATION) = True"
  using assms
  by (simp add: allocate_process_def allocate_segmentation_def Let_def)

lemma deallocate_known_fst:
  assumes "processes s pid \<noteq> None"
  shows "fst (deallocate_process s pid) = True"
  using assms by (auto simp: deallocate_process_def Let_def)

lemma allocate_paging_success:
  assumes "processes s pid = None"
    and "\<not> int (length (free_frames (page_table s))) < num_pages_needed s sz"
  shows "snd (allocate_process s pid sz PAGING) =
     (let n = nat (num_pages_needed s sz); ff = free_frames (page_table s);
          s1 = fold (\<lambda>i. assign_page pid i (ff ! i)) [0..<n]
                 (s\<lparr>processes := (processes s)(pid \<mapsto>
                        \<lparr>proc_id = pid, proc_size = sz, pages = [], segments = []\<rparr>)\<rparr>)
      in s1\<lparr>internal_fragmentation := internal_fragmentation s +
                (if 0 < sz mod page_size s then page_size s - sz mod page_size s else 0),
             events := events s @
                        [\<lparr>event_type = ''ALLOCATION'', event_process_id = pid,
                          details = AllocatedPages (num_pages_needed s sz) pid\<rparr>]\<rparr>)"
  using assms
  by (simp add: allocate_process_def allocate_paging_def num_pages_needed_def Let_def
      log_event_def)

lemmas engine_defs =
  init_def run_def allocate_process_def allocate_paging_def allocate_segmentation_def
  deallocate_process_def deallocate_paging_def deallocate_segmentation_def
  assign_page_def upd_process_def log_event_def calculate_external_fragmentation_def
  fragmentation_ratio_def max_default_def num_pages_needed_def free_frames_def
  split_block_for_page_def insert_at_def MemoryBlock_new_def end_b_def is_free_def
  release_page_def release_blocks_def free_block_def Let_def

lemma engine_16_4_eq:
  "engine_16_4 =
     \<lparr>total_memory_size = 16, page_size = 4, total_frames = 4,
      memory_blocks = [\<lparr>start = 0, size_b = 16, process_id = None\<rparr>],
      page_table = [None, None, None, None],
      processes = Map.empty, events = [], page_faults = 0,
      external_fragmentation = 0, internal_fragmentation = 0\<rparr>"
  by (simp add: engine_16_4_def init_def MemoryBlock_new_def numeral_eq_Suc)

lemma upt4: "[0..<4] = [0, Suc 0, 2, 3]" by (simp add: upt_rec)
lemma upt2: "[0..<2] = [0, Suc 0]" by (simp add: upt_rec)

lemma frag_blocks:
  "memory_blocks engine_fragmented =
     [\<lparr>start = 0, size_b = 4, process_id = None\<rparr>,
      \<lparr>start = 4, size_b = 4, process_id = Some 2\<rparr>,
      \<lparr>start = 8, size_b = 4, process_id = Some 3\<rparr>,
      \<lparr>start = 12, size_b = 4, process_id = None\<rparr>]"
  by (simp add: engine_fragmented_def engine_16_4_eq engine_defs)

lemma frag_other:
  "processes engine_fragmented 9 = None"
  "external_fragmentation engine_fragmented = 0"
  "page_size engine_fragmented = 4"
  "total_memory_size engine_fragmented = 16"
  by (simp_all add: engine_fragmented_def engine_16_4_eq engine_defs)

lemma full_pt:
  "page_table engine_full = [Some 1, Some 1, Some 1, Some 1]"
  by (simp add: engine_full_def engine_16_4_eq engine_defs upt4)

lemma full_blocks:
  "memory_blocks engine_full = [
      \<lparr>start = 0, size_b = 4, process_id = Some 1\<rparr>,
      \<lparr>start = 4, size_b = 4, process_id = Some 1\<rparr>,
      \<lparr>start = 8, size_b = 4, process_id = Some 1\<rparr>,
      \<lparr>start = 12, size_b = 4, process_id = Some 1\<rparr>]"
  by (simp add: engine_full_def engine_16_4_eq engine_defs upt4)


lemma allocate_segmentation_success_fields:
  assumes "processes s pid = None"
    and "find_first_fit (memory_blocks s) sz = Some i"
  shows "external_fragmentation (snd (allocate_process s pid sz SEGMENTATION)) =
           external_fragmentation s"
    and "page_table (snd (allocate_process s pid sz SEGMENTATION)) = page_table s"
    and "page_size (snd (allocate_process s pid sz SEGMENTATION)) = page_size s"
    and "total_memory_size (snd (allocate_process s pid sz SEGMENTATION)) = total_memory_size s"
  using assms
  by (simp_all add: allocate_process_def allocate_segmentation_def Let_def log_event_def
      upd_process_def)

lemma deallocate_fields:
  "external_fragmentation (snd (deallocate_process s pid)) = external_fragmentation s"
  "page_size (snd (deallocate_process s pid)) = page_size s"
  "total_memory_size (snd (deallocate_process s pid)) = total_memory_size s"
  "page_faults (snd (deallocate_process s pid)) = page_faults s"
  "internal_fragmentation (snd (deallocate_process s pid)) = internal_fragmentation s"
  by (simp_all add: deallocate_process_def Let_def log_event_def deallocate_paging_def
      deallocate_segmentation_def split: option.splits)

lemma max_default_Max:
  assumes "xs \<noteq> []"
  shows "max_default xs d = Max (set xs)"
proof (cases xs)
  case Nil
  then show ?thesis using assms by simp
next
  case (Cons x rest)
  then show ?thesis
    using Max.set_eq_fold[of x rest] by (simp add: max_default_def)
qed

lemma frag_no_fit: "find_first_fit (memory_blocks engine_fragmented) 8 = None"
  by (simp add: frag_blocks is_free_def)

lemma frag_ratio: "fragmentation_ratio (memory_blocks engine_fragmented) = 1 / 2"
  by (simp add: frag_blocks fragmentation_ratio_def is_free_def max_default_def)
section \<open>Claims about single calls\<close>

subsection \<open>C1: what a failed call changes\<close>

text \<open>
  Claim C1 as stated fails. On a 16-unit engine whose free space is split into two
  4-unit ranges, a segmentation request for 8 units by the unknown process 9 fails with
  NoSuitableBlock, and afterwards process 9 is in the process dictionary (it was not
  before) and the external-fragmentation ratio has changed from 0 to 1/2. On a new
  16-unit engine with 4-unit pages, a paging request for 20 units by the unknown process
  7 fails with InsufficientFrames, and afterwards process 7 is in the process dictionary.
\<close>

theorem failed_allocation_changes_state:
  "fst (allocate_process engine_fragmented 9 8 SEGMENTATION) = False
   \<and> processes engine_fragmented 9 = None
   \<and> processes (snd (allocate_process engine_fragmented 9 8 SEGMENTATION)) 9 =
       Some \<lparr>proc_id = 9, proc_size = 8, pages = [], segments = []\<rparr>
   \<and> external_fragmentation engine_fragmented = 0
   \<and> external_fragmentation (snd (allocate_process engine_fragmented 9 8 SEGMENTATION)) = 1 / 2
   \<and> fst (allocate_process engine_16_4 7 20 PAGING) = False
   \<and> processes engine_16_4 7 = None
   \<and> processes (snd (allocate_process engine_16_4 7 20 PAGING)) 7 =
       Some \<lparr>proc_id = 7, proc_size = 20, pages = [], segments = []\<rparr>"
proof -
  have fresh: "processes engine_16_4 7 = None" by (simp add: engine_16_4_eq)
  have few: "int (length (free_frames (page_table engine_16_4))) < num_pages_needed engine_16_4 20"
    by (simp add: engine_16_4_eq free_frames_def num_pages_needed_def upt4)
  show ?thesis
    using allocate_segmentation_fail[OF frag_other(1) frag_no_fit]
      allocate_paging_fail[OF fresh few] fresh
    by (simp add: frag_other frag_ratio)
qed

text \<open>
  Claim C1, amended. In a state with a nonzero page size (the constructor admits no
  other), every failed call leaves the block list, the frame table and the
  internal-fragmentation counter as they were and appends exactly one ERROR or PAGE_FAULT
  event. A DuplicateProcess or UnknownProcess failure changes nothing else (the state is
  the old state with the event appended, so the process dictionary is the same). An
  InsufficientFrames failure also adds one to the page-fault counter and leaves the
  external-fragmentation ratio alone; a NoSuitableBlock failure leaves the page-fault
  counter alone and sets the external-fragmentation ratio to the ratio of the current
  block list. Nothing is said here about the process dictionary after an
  InsufficientFrames or NoSuitableBlock failure.
\<close>

theorem failed_call_effects:
  assumes "page_size s \<noteq> 0" and "fst (call c s) = False"
  shows "memory_blocks (snd (call c s)) = memory_blocks s
       \<and> page_table (snd (call c s)) = page_table s
       \<and> internal_fragmentation (snd (call c s)) = internal_fragmentation s
       \<and> (\<exists>e. events (snd (call c s)) = events s @ [e]
              \<and> (event_type e = ''ERROR'' \<or> event_type e = ''PAGE_FAULT''))
       \<and> (case c of
            Deallocate pid \<Rightarrow>
              processes s pid = None
              \<and> snd (call c s) = log_event s ''ERROR'' pid ProcessNotFound
          | Allocate pid sz meth \<Rightarrow>
              (processes s pid \<noteq> None \<longrightarrow>
                 snd (call c s) = log_event s ''ERROR'' pid ProcessAlreadyExists)
            \<and> (processes s pid = None \<and> meth = PAGING \<longrightarrow>
                 int (length (free_frames (page_table s))) < num_pages_needed s sz
               \<and> page_faults (snd (call c s)) = page_faults s + 1
               \<and> external_fragmentation (snd (call c s)) = external_fragmentation s
               \<and> event_type (last (events (snd (call c s)))) = ''PAGE_FAULT'')
            \<and> (processes s pid = None \<and> meth = SEGMENTATION \<longrightarrow>
                 (\<forall>b\<in>set (memory_blocks s). \<not> (is_free b \<and> sz \<le> size_b b))
               \<and> page_faults (snd (call c s)) = page_faults s
               \<and> external_fragmentation (snd (call c s)) =
                   fragmentation_ratio (memory_blocks s)
               \<and> event_type (last (events (snd (call c s)))) = ''ERROR''))"
proof (cases c)
  case (Deallocate pid)
  have none: "processes s pid = None"
    using assms deallocate_known_fst[of s pid]
    by (cases "processes s pid") (auto simp: Deallocate)
  show ?thesis
    using deallocate_unknown[OF none] none by (simp add: Deallocate log_event_def)
next
  case (Allocate pid sz meth)
  show ?thesis
  proof (cases "processes s pid = None")
    case False
    then show ?thesis
      using allocate_duplicate[OF False] by (auto simp: Allocate log_event_def)
  next
    case fresh: True
    show ?thesis
    proof (cases meth)
      case PAGING
      have lt: "int (length (free_frames (page_table s))) < num_pages_needed s sz"
        using assms allocate_paging_success_fst[OF fresh, of sz]
        by (auto simp: Allocate PAGING)
      show ?thesis
        using allocate_paging_fail[OF fresh lt] fresh
        by (simp add: Allocate PAGING lt)
    next
      case SEGMENTATION
      have nf: "find_first_fit (memory_blocks s) sz = None"
        using assms allocate_segmentation_success_fst[OF fresh, of sz]
        by (cases "find_first_fit (memory_blocks s) sz") (auto simp: Allocate SEGMENTATION)
      show ?thesis
        using allocate_segmentation_fail[OF fresh nf] fresh nf[unfolded find_first_fit_None]
        by (simp add: Allocate SEGMENTATION)
    qed
  qed
qed

theorem failed_call_effects_witness:
  "page_size engine_fragmented \<noteq> 0
   \<and> fst (call (Allocate 9 8 SEGMENTATION) engine_fragmented) = False
   \<and> memory_blocks (snd (call (Allocate 9 8 SEGMENTATION) engine_fragmented)) =
       memory_blocks engine_fragmented
   \<and> page_table (snd (call (Allocate 9 8 SEGMENTATION) engine_fragmented)) =
       page_table engine_fragmented"
proof -
  have f: "fst (call (Allocate 9 8 SEGMENTATION) engine_fragmented) = False"
    using allocate_segmentation_fail[OF frag_other(1) frag_no_fit] by simp
  have nz: "page_size engine_fragmented \<noteq> 0" by (simp add: frag_other)
  show ?thesis using failed_call_effects[OF nz f] f nz by simp
qed

subsection \<open>C5: the segmentation path\<close>



subsection \<open>C7: construction\<close>

text \<open>
  Claim C7 as stated fails: the constructor makes no divisibility check. With a total
  size of 10 and a page size of 4 (10 is not a multiple of 4) it returns an engine with
  one free block of 10 units and two frames.
\<close>

theorem init_accepts_indivisible_sizes:
  "(10::int) mod 4 \<noteq> 0 \<and>
   init 10 4 =
     Inr \<lparr>total_memory_size = 10, page_size = 4, total_frames = 2,
          memory_blocks = [\<lparr>start = 0, size_b = 10, process_id = None\<rparr>],
          page_table = [None, None],
          processes = Map.empty, events = [], page_faults = 0,
          external_fragmentation = 0, internal_fragmentation = 0\<rparr>"
  by (simp add: init_def MemoryBlock_new_def numeral_eq_Suc)

text \<open>
  Claim C7, amended. The constructor raises only for a page size of zero (the floor
  division). For every other page size, whether or not it divides the total size, it
  returns an engine with one free block from 0 of the total size, a frame table of
  \<open>total_memory_size // page_size\<close> unowned frames (none when that quotient is
  negative), no process, no event and all counters at zero.
\<close>

theorem init_spec:
  "init total_size 0 = Inl ZeroDivisionError \<and>
   (ps \<noteq> 0 \<longrightarrow>
     (\<exists>s. init total_size ps = Inr s
        \<and> memory_blocks s = [\<lparr>start = 0, size_b = total_size, process_id = None\<rparr>]
        \<and> length (page_table s) = nat (total_size div ps)
        \<and> (\<forall>ow\<in>set (page_table s). ow = None)
        \<and> processes s = Map.empty \<and> events s = []
        \<and> total_memory_size s = total_size \<and> page_size s = ps
        \<and> page_faults s = 0 \<and> external_fragmentation s = 0
        \<and> internal_fragmentation s = 0))"
  by (simp add: init_def MemoryBlock_new_def)

theorem init_spec_witness:
  "(4::int) \<noteq> 0 \<and>
   (\<exists>s. init 16 4 = Inr s
        \<and> memory_blocks s = [\<lparr>start = 0, size_b = 16, process_id = None\<rparr>]
        \<and> length (page_table s) = 4
        \<and> (\<forall>ow\<in>set (page_table s). ow = None))"
  using init_spec[of 16 4] by auto

lemma get_memory_stats_returns:
  assumes "total_memory_size s \<noteq> 0"
  shows "\<exists>st. get_memory_stats s = Inr st
              \<and> stat_external_fragmentation st = external_fragmentation s"
  using assms by (simp add: get_memory_stats_def Let_def)

lemma call_total_memory_size: "total_memory_size (snd (call c s)) = total_memory_size s"
proof (cases c)
  case (Deallocate pid)
  then show ?thesis by (simp add: deallocate_fields)
next
  case (Allocate pid sz meth)
  show ?thesis
  proof (cases "processes s pid = None")
    case False
    then show ?thesis using allocate_duplicate[OF False] by (simp add: Allocate)
  next
    case fresh: True
    show ?thesis
    proof (cases meth)
      case PAGING
      show ?thesis
      proof (cases "int (length (free_frames (page_table s))) < num_pages_needed s sz")
        case True
        then show ?thesis
          using allocate_paging_fail[OF fresh True] by (simp add: Allocate PAGING)
      next
        case False
        then show ?thesis
          using allocate_paging_success[OF fresh False]
          by (simp add: Allocate PAGING Let_def)
      qed
    next
      case SEGMENTATION
      show ?thesis
      proof (cases "find_first_fit (memory_blocks s) sz")
        case None
        then show ?thesis
          using allocate_segmentation_fail[OF fresh None] by (simp add: Allocate SEGMENTATION)
      next
        case (Some i)
        then show ?thesis
          using allocate_segmentation_success_fields(4)[OF fresh Some]
          by (simp add: Allocate SEGMENTATION)
      qed
    qed
  qed
qed

subsection \<open>C8: the external-fragmentation ratio\<close>

text \<open>
  Claim C8. In a state with a nonzero page size, a call changes the stored
  external-fragmentation ratio only when it is a segmentation request by a process id
  that is not live and no free block is large enough; the stored value is then the ratio
  of the current block list. Every other call (a duplicate id, any paging request, a
  successful segmentation request, any deallocation) leaves it as it was. The ratio of a
  block list is one minus the largest free size over the total free size when the total
  free size is positive, and zero otherwise. When the total memory size is not zero the
  statistics query returns, before and after the call, and the value it reports is the
  stored one (it raises on the division for a total size of zero); it takes the state
  and returns no state. A new engine stores zero. Quotients are exact here; the
  rounding of Python floats is not modelled.
\<close>

theorem external_fragmentation_lazy:
  assumes "page_size s \<noteq> 0"
  shows "external_fragmentation (snd (call c s)) =
     (case c of
        Allocate pid sz meth \<Rightarrow>
          if meth = SEGMENTATION \<and> processes s pid = None
             \<and> (\<forall>b\<in>set (memory_blocks s). \<not> (is_free b \<and> sz \<le> size_b b))
          then fragmentation_ratio (memory_blocks s)
          else external_fragmentation s
      | Deallocate pid \<Rightarrow> external_fragmentation s)
   \<and> fragmentation_ratio bs =
       (if 0 < sum_list (map size_b (filter is_free bs))
        then 1 - real_of_int (Max (set (map size_b (filter is_free bs))))
                 / real_of_int (sum_list (map size_b (filter is_free bs)))
        else 0)
   \<and> (total_memory_size s \<noteq> 0 \<longrightarrow>
         (\<exists>st. get_memory_stats s = Inr st
               \<and> stat_external_fragmentation st = external_fragmentation s)
       \<and> (\<exists>st. get_memory_stats (snd (call c s)) = Inr st
               \<and> stat_external_fragmentation st = external_fragmentation (snd (call c s))))
   \<and> (total_memory_size s = 0 \<longrightarrow> get_memory_stats s = Inl ZeroDivisionError)
   \<and> (ps \<noteq> 0 \<longrightarrow>
         (\<exists>s0. init total_size ps = Inr s0 \<and> external_fragmentation s0 = 0))"
proof (intro conjI)
  show "external_fragmentation (snd (call c s)) =
     (case c of
        Allocate pid sz meth \<Rightarrow>
          if meth = SEGMENTATION \<and> processes s pid = None
             \<and> (\<forall>b\<in>set (memory_blocks s). \<not> (is_free b \<and> sz \<le> size_b b))
          then fragmentation_ratio (memory_blocks s)
          else external_fragmentation s
      | Deallocate pid \<Rightarrow> external_fragmentation s)"
  proof (cases c)
    case (Deallocate pid)
    then show ?thesis by (simp add: deallocate_fields)
  next
    case (Allocate pid sz meth)
    show ?thesis
    proof (cases "processes s pid = None")
      case False
      then show ?thesis using allocate_duplicate[OF False] by (auto simp: Allocate)
    next
      case fresh: True
      show ?thesis
      proof (cases meth)
        case PAGING
        show ?thesis
        proof (cases "int (length (free_frames (page_table s))) < num_pages_needed s sz")
          case True
          then show ?thesis
            using allocate_paging_fail[OF fresh True] by (simp add: Allocate PAGING)
        next
          case False
          then show ?thesis
            using allocate_paging_success[OF fresh False]
            by (simp add: Allocate PAGING Let_def)
        qed
      next
        case SEGMENTATION
        show ?thesis
        proof (cases "find_first_fit (memory_blocks s) sz")
          case None
          then show ?thesis
            using allocate_segmentation_fail[OF fresh None] fresh
            by (simp add: Allocate SEGMENTATION find_first_fit_None)
        next
          case (Some i)
          then have "\<not> (\<forall>b\<in>set (memory_blocks s). \<not> (is_free b \<and> sz \<le> size_b b))"
            using find_first_fit_None[of "memory_blocks s" sz] by simp
          then show ?thesis
            using allocate_segmentation_success_fields(1)[OF fresh Some]
            by (auto simp: Allocate SEGMENTATION)
        qed
      qed
    qed
  qed
next
  show "fragmentation_ratio bs =
       (if 0 < sum_list (map size_b (filter is_free bs))
        then 1 - real_of_int (Max (set (map size_b (filter is_free bs))))
                 / real_of_int (sum_list (map size_b (filter is_free bs)))
        else 0)"
  proof (cases "filter is_free bs = []")
    case True
    then show ?thesis by (simp add: fragmentation_ratio_def)
  next
    case False
    then have "map size_b (filter is_free bs) \<noteq> []" by simp
    then have "max_default (map size_b (filter is_free bs)) 0 =
                 Max (set (map size_b (filter is_free bs)))"
      by (rule max_default_Max)
    then show ?thesis
      by (simp only: fragmentation_ratio_def Let_def)
  qed
next
  show "total_memory_size s \<noteq> 0 \<longrightarrow>
         (\<exists>st. get_memory_stats s = Inr st
               \<and> stat_external_fragmentation st = external_fragmentation s)
       \<and> (\<exists>st. get_memory_stats (snd (call c s)) = Inr st
               \<and> stat_external_fragmentation st = external_fragmentation (snd (call c s)))"
    using get_memory_stats_returns[of s] get_memory_stats_returns[of "snd (call c s)"]
    by (simp add: call_total_memory_size)
next
  show "total_memory_size s = 0 \<longrightarrow> get_memory_stats s = Inl ZeroDivisionError"
    by (simp add: get_memory_stats_def Let_def)
next
  show "ps \<noteq> 0 \<longrightarrow>
         (\<exists>s0. init total_size ps = Inr s0 \<and> external_fragmentation s0 = 0)"
    by (simp add: init_def)
qed

theorem external_fragmentation_lazy_witness:
  "page_size engine_fragmented \<noteq> 0 \<and> total_memory_size engine_fragmented \<noteq> 0
   \<and> external_fragmentation engine_fragmented = 0
   \<and> external_fragmentation (snd (call (Allocate 9 8 SEGMENTATION) engine_fragmented)) = 1 / 2
   \<and> external_fragmentation (snd (call (Deallocate 2) engine_fragmented)) = 0
   \<and> \<not> isl (get_memory_stats engine_fragmented)
   \<and> stat_external_fragmentation (projr (get_memory_stats engine_fragmented)) = 0
   \<and> \<not> isl (get_memory_stats (snd (call (Allocate 9 8 SEGMENTATION) engine_fragmented)))
   \<and> stat_external_fragmentation
         (projr (get_memory_stats (snd (call (Allocate 9 8 SEGMENTATION) engine_fragmented))))
       = 1 / 2"
proof -
  have nz: "page_size engine_fragmented \<noteq> 0" by (simp add: frag_other)
  have tz: "total_memory_size engine_fragmented \<noteq> 0" by (simp add: frag_other)
  have nf: "\<forall>b\<in>set (memory_blocks engine_fragmented). \<not> (is_free b \<and> 8 \<le> size_b b)"
    using frag_no_fit by (simp only: find_first_fit_None)
  note L = external_fragmentation_lazy[where c = "Allocate 9 8 SEGMENTATION"
        and s = engine_fragmented, OF nz]
  have a: "external_fragmentation (snd (call (Allocate 9 8 SEGMENTATION) engine_fragmented)) =
             fragmentation_ratio (memory_blocks engine_fragmented)"
    using L[THEN conjunct1] nf frag_other(1) by simp
  have b: "external_fragmentation (snd (call (Deallocate 2) engine_fragmented)) =
             external_fragmentation engine_fragmented"
    using external_fragmentation_lazy[where c = "Deallocate 2" and s = engine_fragmented,
        OF nz, THEN conjunct1]
    by simp
  have st: "(\<exists>st. get_memory_stats engine_fragmented = Inr st
               \<and> stat_external_fragmentation st = external_fragmentation engine_fragmented)
       \<and> (\<exists>st. get_memory_stats (snd (call (Allocate 9 8 SEGMENTATION) engine_fragmented))
                  = Inr st
               \<and> stat_external_fragmentation st =
                   external_fragmentation
                     (snd (call (Allocate 9 8 SEGMENTATION) engine_fragmented)))"
    using L[THEN conjunct2, THEN conjunct2, THEN conjunct1] tz by blast
  have c: "\<not> isl (get_memory_stats engine_fragmented)"
    "stat_external_fragmentation (projr (get_memory_stats engine_fragmented)) =
       external_fragmentation engine_fragmented"
    using st by auto
  have d: "\<not> isl (get_memory_stats (snd (call (Allocate 9 8 SEGMENTATION) engine_fragmented)))"
    "stat_external_fragmentation
         (projr (get_memory_stats (snd (call (Allocate 9 8 SEGMENTATION) engine_fragmented))))
       = external_fragmentation (snd (call (Allocate 9 8 SEGMENTATION) engine_fragmented))"
    using st by auto
  show ?thesis using a b c d nz tz by (simp add: frag_other frag_ratio)
qed

subsection \<open>C9: a failed allocation leaves the process registered\<close>

text \<open>
  Claim C9. In a state with a nonzero page size, when an allocation by a process id
  that is not live returns failure, the process is in the dictionary afterwards with no
  pages and no segments, the block list and frame table are unchanged, and the event
  list has gained the PAGE_FAULT event (paging) or the "No suitable free block" ERROR
  event (segmentation). A second allocation with that id, of any size and strategy,
  returns failure and appends the "Process already exists" ERROR event to the event
  list, changing nothing else. A deallocation of that id returns success: it removes the
  record and appends a DEALLOCATION event to the event list, changing nothing else, so
  the dictionary, the block list and the frame table are those from before the failed
  allocation.
\<close>

theorem failed_allocation_registers_process:
  assumes "processes s pid = None"
    and "allocate_process s pid sz meth = (False, s')"
    and "page_size s \<noteq> 0"
  shows "processes s' = (processes s)(pid \<mapsto>
            \<lparr>proc_id = pid, proc_size = sz, pages = [], segments = []\<rparr>)
       \<and> memory_blocks s' = memory_blocks s \<and> page_table s' = page_table s
       \<and> events s' = events s @
           [case meth of
              PAGING \<Rightarrow>
                \<lparr>event_type = ''PAGE_FAULT'', event_process_id = pid,
                 details = NotEnoughFreeFrames (num_pages_needed s sz)
                             (length (free_frames (page_table s)))\<rparr>
            | SEGMENTATION \<Rightarrow>
                \<lparr>event_type = ''ERROR'', event_process_id = pid,
                 details = NoSuitableFreeBlock pid sz\<rparr>]
       \<and> allocate_process s' pid sz2 meth2 =
           (False, s'\<lparr>events := events s' @
                       [\<lparr>event_type = ''ERROR'', event_process_id = pid,
                         details = ProcessAlreadyExists\<rparr>]\<rparr>)
       \<and> events (snd (allocate_process s' pid sz2 meth2)) =
           events s' @ [\<lparr>event_type = ''ERROR'', event_process_id = pid,
                         details = ProcessAlreadyExists\<rparr>]
       \<and> deallocate_process s' pid =
           (True, s'\<lparr>processes := (processes s')(pid := None),
                     events := events s' @
                       [\<lparr>event_type = ''DEALLOCATION'', event_process_id = pid,
                         details = DeallocatedProcess pid\<rparr>]\<rparr>)
       \<and> events (snd (deallocate_process s' pid)) =
           events s' @ [\<lparr>event_type = ''DEALLOCATION'', event_process_id = pid,
                         details = DeallocatedProcess pid\<rparr>]
       \<and> processes (snd (deallocate_process s' pid)) = processes s
       \<and> memory_blocks (snd (deallocate_process s' pid)) = memory_blocks s
       \<and> page_table (snd (deallocate_process s' pid)) = page_table s"
proof -
  have s': "s' = snd (allocate_process s pid sz meth)"
    and f: "fst (allocate_process s pid sz meth) = False"
    using assms(2) by simp_all
  have reg: "processes s' = (processes s)(pid \<mapsto>
            \<lparr>proc_id = pid, proc_size = sz, pages = [], segments = []\<rparr>)
       \<and> memory_blocks s' = memory_blocks s \<and> page_table s' = page_table s
       \<and> events s' = events s @
           [case meth of
              PAGING \<Rightarrow>
                \<lparr>event_type = ''PAGE_FAULT'', event_process_id = pid,
                 details = NotEnoughFreeFrames (num_pages_needed s sz)
                             (length (free_frames (page_table s)))\<rparr>
            | SEGMENTATION \<Rightarrow>
                \<lparr>event_type = ''ERROR'', event_process_id = pid,
                 details = NoSuitableFreeBlock pid sz\<rparr>]"
  proof (cases meth)
    case PAGING
    show ?thesis
    proof (cases "int (length (free_frames (page_table s))) < num_pages_needed s sz")
      case True
      then show ?thesis
        using allocate_paging_fail[OF assms(1) True] by (simp add: s' PAGING)
    next
      case False
      then show ?thesis
        using allocate_paging_success_fst[OF assms(1) False] f by (simp add: PAGING)
    qed
  next
    case SEGMENTATION
    show ?thesis
    proof (cases "find_first_fit (memory_blocks s) sz")
      case None
      then show ?thesis
        using allocate_segmentation_fail[OF assms(1) None] by (simp add: s' SEGMENTATION)
    next
      case (Some i)
      then show ?thesis
        using allocate_segmentation_success_fst[OF assms(1) Some] f by (simp add: SEGMENTATION)
    qed
  qed
  then have live: "processes s' pid =
      Some \<lparr>proc_id = pid, proc_size = sz, pages = [], segments = []\<rparr>" by simp
  have dup: "allocate_process s' pid sz2 meth2 =
           (False, s'\<lparr>events := events s' @
                       [\<lparr>event_type = ''ERROR'', event_process_id = pid,
                         details = ProcessAlreadyExists\<rparr>]\<rparr>)"
    using live by (simp add: allocate_process_def log_event_def)
  have de: "deallocate_process s' pid =
           (True, s'\<lparr>processes := (processes s')(pid := None),
                     events := events s' @
                       [\<lparr>event_type = ''DEALLOCATION'', event_process_id = pid,
                         details = DeallocatedProcess pid\<rparr>]\<rparr>)"
    using live by (simp add: deallocate_process_def log_event_def)
  have restored: "(processes s')(pid := None) = processes s"
    using reg assms(1) by (auto simp: fun_eq_iff)
  show ?thesis
    using reg restored by (simp add: dup de)
qed

theorem failed_allocation_registers_process_witness:
  "processes engine_16_4 7 = None \<and> page_size engine_16_4 \<noteq> 0
   \<and> fst (allocate_process engine_16_4 7 20 PAGING) = False
   \<and> processes (snd (allocate_process engine_16_4 7 20 PAGING)) 7 =
       Some \<lparr>proc_id = 7, proc_size = 20, pages = [], segments = []\<rparr>
   \<and> events (snd (allocate_process engine_16_4 7 20 PAGING)) =
       [\<lparr>event_type = ''PAGE_FAULT'', event_process_id = 7,
         details = NotEnoughFreeFrames 5 4\<rparr>]
   \<and> fst (allocate_process (snd (allocate_process engine_16_4 7 20 PAGING)) 7 4 SEGMENTATION)
       = False
   \<and> events (snd (allocate_process (snd (allocate_process engine_16_4 7 20 PAGING)) 7 4
                     SEGMENTATION)) =
       [\<lparr>event_type = ''PAGE_FAULT'', event_process_id = 7,
         details = NotEnoughFreeFrames 5 4\<rparr>,
        \<lparr>event_type = ''ERROR'', event_process_id = 7, details = ProcessAlreadyExists\<rparr>]
   \<and> fst (deallocate_process (snd (allocate_process engine_16_4 7 20 PAGING)) 7) = True
   \<and> events (snd (deallocate_process (snd (allocate_process engine_16_4 7 20 PAGING)) 7)) =
       [\<lparr>event_type = ''PAGE_FAULT'', event_process_id = 7,
         details = NotEnoughFreeFrames 5 4\<rparr>,
        \<lparr>event_type = ''DEALLOCATION'', event_process_id = 7,
         details = DeallocatedProcess 7\<rparr>]
   \<and> processes (snd (deallocate_process (snd (allocate_process engine_16_4 7 20 PAGING)) 7)) 7
       = None"
proof -
  have a: "processes engine_16_4 7 = None" by (simp add: engine_16_4_eq)
  have nz: "page_size engine_16_4 \<noteq> 0" by (simp add: engine_16_4_eq)
  have b: "fst (allocate_process engine_16_4 7 20 PAGING) = False"
    by (simp add: engine_16_4_eq engine_defs)
  then have c: "allocate_process engine_16_4 7 20 PAGING =
                  (False, snd (allocate_process engine_16_4 7 20 PAGING))"
    by (metis prod.collapse)
  have n: "num_pages_needed engine_16_4 20 = 5"
    "length (free_frames (page_table engine_16_4)) = 4" "events engine_16_4 = []"
    by (simp_all add: engine_16_4_eq num_pages_needed_def free_frames_def upt4)
  show ?thesis
    using failed_allocation_registers_process[OF a c nz, of 4 SEGMENTATION] a b nz
    by (simp add: n)
qed

subsection \<open>C10: a paging request of size zero\<close>

text \<open>
  Claim C10 as stated fails. The constructor accepts a negative page size: with a total
  size of 16 and a page size of -4 it returns an engine with an empty frame table. There
  a paging request of size 0 needs \<open>(0 - 4 - 1) // -4 = 1\<close> frame, none is free, and the
  call returns failure with a PAGE_FAULT event and an incremented page-fault counter.
\<close>

theorem zero_size_paging_fails_on_negative_page_size:
  "init 16 (- 4) = Inr engine_negative_page
   \<and> page_table engine_negative_page = []
   \<and> processes engine_negative_page 1 = None
   \<and> num_pages_needed engine_negative_page 0 = 1
   \<and> fst (allocate_process engine_negative_page 1 0 PAGING) = False
   \<and> events (snd (allocate_process engine_negative_page 1 0 PAGING)) =
       [\<lparr>event_type = ''PAGE_FAULT'', event_process_id = 1,
         details = NotEnoughFreeFrames 1 0\<rparr>]
   \<and> page_faults (snd (allocate_process engine_negative_page 1 0 PAGING)) = 1"
  by (simp add: engine_negative_page_def engine_defs)

text \<open>
  Claim C10, amended. In every state with a positive page size, for a process id that is
  not live, a paging request of size 0 returns success; the new state is the old one
  with the process registered with no pages and no segments and an ALLOCATION event
  appended to the event list. So the block list, the frame table and the
  internal-fragmentation counter are unchanged, whatever the number of free frames.
\<close>

theorem allocate_zero_size_paging:
  assumes "0 < page_size s" and "processes s pid = None"
  shows "allocate_process s pid 0 PAGING =
           (True, s\<lparr>processes := (processes s)(pid \<mapsto>
                       \<lparr>proc_id = pid, proc_size = 0, pages = [], segments = []\<rparr>),
                     events := events s @
                       [\<lparr>event_type = ''ALLOCATION'', event_process_id = pid,
                         details = AllocatedPages 0 pid\<rparr>]\<rparr>)"
proof -
  have n: "(page_size s - 1) div page_size s = 0"
    using assms(1) by (simp add: div_pos_pos_trivial)
  show ?thesis
    using assms(2) n
    by (simp add: allocate_process_def allocate_paging_def num_pages_needed_def Let_def
        log_event_def)
qed

theorem allocate_zero_size_paging_witness:
  "0 < page_size engine_full \<and> processes engine_full 2 = None
   \<and> free_frames (page_table engine_full) = []
   \<and> fst (allocate_process engine_full 2 0 PAGING) = True
   \<and> memory_blocks (snd (allocate_process engine_full 2 0 PAGING)) = memory_blocks engine_full
   \<and> page_table (snd (allocate_process engine_full 2 0 PAGING)) = page_table engine_full
   \<and> internal_fragmentation (snd (allocate_process engine_full 2 0 PAGING)) =
       internal_fragmentation engine_full
   \<and> processes (snd (allocate_process engine_full 2 0 PAGING)) 2 =
       Some \<lparr>proc_id = 2, proc_size = 0, pages = [], segments = []\<rparr>"
proof -
  have a: "0 < page_size engine_full"
    by (simp add: engine_full_def engine_16_4_eq engine_defs upt4)
  have b: "processes engine_full 2 = None"
    by (simp add: engine_full_def engine_16_4_eq engine_defs upt4)
  have c: "free_frames (page_table engine_full) = []"
    by (simp add: full_pt free_frames_def upt4)
  show ?thesis
    using allocate_zero_size_paging[OF a b] a b c by simp
qed

section \<open>The block list, ownership and consistency across calls\<close>

lemma find_block_for_frame_SomeD:
  "find_block_for_frame bs fs psz = Some j \<Longrightarrow>
     j < length bs \<and> is_free (bs ! j) \<and> start (bs ! j) \<le> fs \<and> fs + psz - 1 \<le> end_b (bs ! j)"
  by (induction bs arbitrary: j) (auto split: if_splits)

lemma find_block_for_frame_NoneD:
  "find_block_for_frame bs fs psz = None \<Longrightarrow> b \<in> set bs \<Longrightarrow>
     \<not> (is_free b \<and> start b \<le> fs \<and> fs + psz - 1 \<le> end_b b)"
  by (induction bs) (auto split: if_splits)

lemma split_block_for_page_append:
  "split_block_for_page (xs @ b # ys) (length xs) fs psz pid = xs @ split_result b fs psz pid @ ys"
  by (simp add: split_block_for_page_def split_result_def insert_at_def Let_def
      nth_append list_update_append)

lemma split_block_for_page_nth:
  assumes "j < length bs"
  shows "split_block_for_page bs j fs psz pid =
           take j bs @ split_result (bs ! j) fs psz pid @ drop (Suc j) bs"
proof -
  have "bs = take j bs @ bs ! j # drop (Suc j) bs"
    using assms by (simp add: id_take_nth_drop)
  moreover have "length (take j bs) = j" using assms by simp
  ultimately show ?thesis
    using split_block_for_page_append[of "take j bs" "bs ! j" "drop (Suc j) bs" fs psz pid]
    by simp
qed

text \<open>What one iteration of the page loop does to the block list.\<close>

lemma assign_page_blocks:
  obtains
    (unchanged) "memory_blocks (assign_page pid i f s) = memory_blocks s"
      and "\<forall>b\<in>set (memory_blocks s).
             \<not> (is_free b \<and> start b \<le> int f * page_size s
                \<and> int f * page_size s + page_size s - 1 \<le> end_b b)"
  | (split) xs b ys where "memory_blocks s = xs @ b # ys"
      and "is_free b" and "start b \<le> int f * page_size s"
      and "int f * page_size s + page_size s - 1 \<le> end_b b"
      and "memory_blocks (assign_page pid i f s) =
             xs @ split_result b (int f * page_size s) (page_size s) pid @ ys"
proof (cases "find_block_for_frame (memory_blocks s) (int f * page_size s) (page_size s)")
  case None
  have "memory_blocks (assign_page pid i f s) = memory_blocks s"
    using None by (simp add: assign_page_def upd_process_def Let_def)
  then show ?thesis
    using unchanged find_block_for_frame_NoneD[OF None] by blast
next
  case (Some j)
  note D = find_block_for_frame_SomeD[OF Some]
  have eq: "memory_blocks s = take j (memory_blocks s) @ memory_blocks s ! j
              # drop (Suc j) (memory_blocks s)"
    using D by (simp add: id_take_nth_drop)
  have "memory_blocks (assign_page pid i f s) =
          take j (memory_blocks s)
          @ split_result (memory_blocks s ! j) (int f * page_size s) (page_size s) pid
          @ drop (Suc j) (memory_blocks s)"
    using Some D by (simp add: assign_page_def upd_process_def Let_def split_block_for_page_nth)
  then show ?thesis using split[OF eq] D by blast
qed

subsection \<open>chain\<close>

lemma chain_append:
  "chain a (xs @ ys) z \<longleftrightarrow>
     chain a xs (a + sum_list (map size_b xs)) \<and> chain (a + sum_list (map size_b xs)) ys z"
  by (induction xs arbitrary: a) (auto simp: add.assoc)

lemma split_result_sum:
  assumes "start b \<le> fs" "fs + psz - 1 \<le> end_b b"
  shows "sum_list (map size_b (split_result b fs psz pid)) = size_b b"
  using assms by (auto simp: split_result_def MemoryBlock_new_def end_b_def)

lemma chain_split_result0:
  assumes "0 < psz" "start b \<le> fs" "fs + psz - 1 \<le> end_b b"
  shows "chain (start b) (split_result b fs psz pid) (start b + size_b b)"
  using assms by (auto simp: split_result_def MemoryBlock_new_def end_b_def)

lemma chain_split_result:
  assumes "0 < psz" "start b \<le> fs" "fs + psz - 1 \<le> end_b b"
  shows "chain (start b) (split_result b fs psz pid @ ys) z
           \<longleftrightarrow> chain (start b + size_b b) ys z"
  using chain_split_result0[OF assms] split_result_sum[OF assms(2,3)]
  by (simp add: chain_append)

lemma segment_result_sum:
  assumes "sz \<le> size_b b"
  shows "sum_list (map size_b (segment_result b sz pid)) = size_b b"
  using assms by (auto simp: segment_result_def MemoryBlock_new_def)

lemma chain_segment_result0:
  assumes "0 < sz" "sz \<le> size_b b"
  shows "chain (start b) (segment_result b sz pid) (start b + size_b b)"
  using assms by (auto simp: segment_result_def MemoryBlock_new_def)

lemma chain_segment_result:
  assumes "0 < sz" "sz \<le> size_b b"
  shows "chain (start b) (segment_result b sz pid @ ys) z
           \<longleftrightarrow> chain (start b + size_b b) ys z"
  using chain_segment_result0[OF assms] segment_result_sum[OF assms(2)]
  by (simp add: chain_append)

lemma chain_release_blocks [simp]: "chain a (release_blocks pid bs) z = chain a bs z"
  by (induction bs arbitrary: a) (auto simp: release_blocks_def free_block_def MemoryBlock_new_def)

lemma chain_free_first_match [simp]: "chain a (free_first_match st pid bs) z = chain a bs z"
  by (induction bs arbitrary: a) (auto simp: free_block_def MemoryBlock_new_def)

lemma chain_fold_free_first_match [simp]:
  "chain a (fold (\<lambda>segment. free_first_match (start segment) pid) segs bs) z = chain a bs z"
  by (induction segs arbitrary: bs) auto

lemma chain_merge: "chain a bs z \<Longrightarrow> chain a (merge_adjacent_free_blocks bs) z"
  by (induction bs arbitrary: a rule: merge_adjacent_free_blocks.induct)
     (auto simp: MemoryBlock_new_def add.assoc)

subsection \<open>no adjacent free blocks\<close>

lemma merge_hd:
  "bs \<noteq> [] \<Longrightarrow>
     merge_adjacent_free_blocks bs \<noteq> []
     \<and> is_free (hd (merge_adjacent_free_blocks bs)) = is_free (hd bs)"
  by (induction bs rule: merge_adjacent_free_blocks.induct)
     (auto simp: MemoryBlock_new_def is_free_def)

lemma no_adjacent_free_merge [simp]: "no_adjacent_free (merge_adjacent_free_blocks bs)"
  unfolding no_adjacent_free_def
proof (induction bs rule: merge_adjacent_free_blocks.induct)
  case (1 current next_block rest)
  show ?case
  proof (cases "is_free current \<and> is_free next_block")
    case True
    then show ?thesis using 1 by simp
  next
    case False
    then show ?thesis
      using 1 merge_hd[of "next_block # rest"]
      by (auto simp: successively_Cons)
  qed
qed simp_all

lemma no_adjacent_free_replace:
  assumes "no_adjacent_free (xs @ b # ys)" "is_free b"
    and "no_adjacent_free rs" "rs \<noteq> []"
  shows "no_adjacent_free (xs @ rs @ ys)"
  using assms unfolding no_adjacent_free_def
  by (cases xs rule: rev_cases; cases ys)
     (auto simp: successively_append_iff successively_Cons)

lemma no_adjacent_free_split_result: "no_adjacent_free (split_result b fs psz pid)"
  by (simp add: no_adjacent_free_def split_result_def MemoryBlock_new_def is_free_def)

lemma no_adjacent_free_segment_result: "no_adjacent_free (segment_result b sz pid)"
  by (simp add: no_adjacent_free_def segment_result_def MemoryBlock_new_def is_free_def)

lemma merge_id: "no_adjacent_free bs \<Longrightarrow> merge_adjacent_free_blocks bs = bs"
  unfolding no_adjacent_free_def
  by (induction bs rule: merge_adjacent_free_blocks.induct) auto

lemma range_invariant_replace:
  assumes inv: "range_invariant T (xs @ b # ys)" and fr: "is_free b"
    and ch: "chain (start b) rs (start b + size_b b)"
    and sm: "sum_list (map size_b rs) = size_b b"
    and na: "no_adjacent_free rs" and ne: "rs \<noteq> []"
  shows "range_invariant T (xs @ rs @ ys)"
proof -
  have c: "chain 0 (xs @ b # ys) T" and n: "no_adjacent_free (xs @ b # ys)"
    using inv by (simp_all add: range_invariant_def)
  have "chain 0 (xs @ rs @ ys) T"
    using c ch sm by (auto simp: chain_append)
  moreover have "no_adjacent_free (xs @ rs @ ys)"
    using no_adjacent_free_replace[OF n fr na ne] .
  ultimately show ?thesis by (simp add: range_invariant_def)
qed

lemma split_result_nonempty [simp]: "split_result b fs psz pid \<noteq> []"
  by (simp add: split_result_def)

lemma segment_result_nonempty [simp]: "segment_result b sz pid \<noteq> []"
  by (simp add: segment_result_def)

lemma assign_page_range_invariant:
  assumes "0 < page_size s" and "range_invariant T (memory_blocks s)"
  shows "range_invariant T (memory_blocks (assign_page pid i f s))"
proof (cases pid i f s rule: assign_page_blocks)
  case unchanged
  then show ?thesis using assms by simp
next
  case (split xs b ys)
  show ?thesis
    unfolding split(5)
    by (rule range_invariant_replace[where b = b])
       (use assms split in \<open>simp_all add: chain_split_result0 split_result_sum
          no_adjacent_free_split_result\<close>)
qed

lemma fold_assign_page_range_invariant:
  assumes "0 < page_size s" and "range_invariant T (memory_blocks s)"
  shows "range_invariant T (memory_blocks (fold (\<lambda>i. assign_page pid i (g i)) js s))"
  using assms
proof (induction js arbitrary: s)
  case Nil
  then show ?case by simp
next
  case (Cons j js)
  have "range_invariant T (memory_blocks (assign_page pid j (g j) s))"
    using Cons.prems by (rule assign_page_range_invariant)
  moreover have "0 < page_size (assign_page pid j (g j) s)"
    using Cons.prems by simp
  ultimately show ?case using Cons.IH by simp
qed

lemma allocate_segmentation_success_blocks:
  assumes "processes s pid = None"
    and "find_first_fit (memory_blocks s) sz = Some i"
  shows "memory_blocks (snd (allocate_process s pid sz SEGMENTATION)) =
           take i (memory_blocks s) @ segment_result (memory_blocks s ! i) sz pid
           @ drop (Suc i) (memory_blocks s)"
proof -
  note D = find_first_fit_SomeD[OF assms(2)]
  define xs where "xs = take i (memory_blocks s)"
  define ys where "ys = drop (Suc i) (memory_blocks s)"
  define b where "b = memory_blocks s ! i"
  have eq: "memory_blocks s = xs @ b # ys" and len: "length xs = i"
    using D by (simp_all add: xs_def ys_def b_def id_take_nth_drop)
  have "memory_blocks (snd (allocate_process s pid sz SEGMENTATION)) =
          xs @ segment_result b sz pid @ ys"
    using assms len[symmetric]
    by (simp add: allocate_process_def allocate_segmentation_def Let_def upd_process_def
        log_event_def eq segment_result_def insert_at_append)
  then show ?thesis by (simp add: xs_def ys_def b_def)
qed

lemma call_page_size [simp]: "page_size (snd (call c s)) = page_size s"
proof (cases c)
  case (Deallocate pid)
  then show ?thesis by (simp add: deallocate_fields)
next
  case (Allocate pid sz meth)
  show ?thesis
  proof (cases "processes s pid = None")
    case False
    then show ?thesis using allocate_duplicate[OF False] by (simp add: Allocate)
  next
    case fresh: True
    show ?thesis
    proof (cases meth)
      case PAGING
      show ?thesis
      proof (cases "int (length (free_frames (page_table s))) < num_pages_needed s sz")
        case True
        then show ?thesis
          using allocate_paging_fail[OF fresh True] by (simp add: Allocate PAGING)
      next
        case False
        then show ?thesis
          using allocate_paging_success[OF fresh False]
          by (simp add: Allocate PAGING Let_def)
      qed
    next
      case SEGMENTATION
      show ?thesis
      proof (cases "find_first_fit (memory_blocks s) sz")
        case None
        then show ?thesis
          using allocate_segmentation_fail[OF fresh None] by (simp add: Allocate SEGMENTATION)
      next
        case (Some i)
        then show ?thesis
          using allocate_segmentation_success_fields(3)[OF fresh Some]
          by (simp add: Allocate SEGMENTATION)
      qed
    qed
  qed
qed

lemma deallocate_blocks_cases:
  assumes "processes s pid = Some pr"
  shows "memory_blocks (snd (deallocate_process s pid)) =
           (if pages pr \<noteq> []
            then merge_adjacent_free_blocks (release_blocks (proc_id pr) (memory_blocks s))
            else if segments pr \<noteq> []
            then merge_adjacent_free_blocks
                   (fold (\<lambda>segment. free_first_match (start segment) (proc_id pr))
                      (segments pr) (memory_blocks s))
            else memory_blocks s)"
  using assms
  by (simp add: deallocate_process_def Let_def log_event_def deallocate_paging_def
      deallocate_segmentation_def)

lemma call_range_invariant:
  assumes ps: "0 < page_size s" and inv: "range_invariant T (memory_blocks s)"
    and pos: "segment_size_positive c"
  shows "range_invariant T (memory_blocks (snd (call c s)))"
proof (cases c)
  case (Deallocate pid)
  show ?thesis
  proof (cases "processes s pid")
    case None
    then show ?thesis using deallocate_unknown[OF None] inv by (simp add: Deallocate)
  next
    case (Some pr)
    show ?thesis
      using inv
      by (simp add: Deallocate deallocate_blocks_cases[OF Some] range_invariant_def chain_merge)
  qed
next
  case (Allocate pid sz meth)
  show ?thesis
  proof (cases "processes s pid = None")
    case False
    then show ?thesis using allocate_duplicate[OF False] inv by (simp add: Allocate)
  next
    case fresh: True
    show ?thesis
    proof (cases meth)
      case PAGING
      show ?thesis
      proof (cases "int (length (free_frames (page_table s))) < num_pages_needed s sz")
        case True
        then show ?thesis
          using allocate_paging_fail[OF fresh True] inv by (simp add: Allocate PAGING)
      next
        case False
        show ?thesis
          using allocate_paging_success[OF fresh False]
            fold_assign_page_range_invariant[of
              "s\<lparr>processes := (processes s)(pid \<mapsto>
                    \<lparr>proc_id = pid, proc_size = sz, pages = [], segments = []\<rparr>)\<rparr>" T pid
              "\<lambda>i. free_frames (page_table s) ! i"] ps inv
          by (simp add: Allocate PAGING Let_def)
      qed
    next
      case SEGMENTATION
      have szpos: "0 < sz" using pos by (simp add: Allocate SEGMENTATION)
      show ?thesis
      proof (cases "find_first_fit (memory_blocks s) sz")
        case None
        then show ?thesis
          using allocate_segmentation_fail[OF fresh None] inv
          by (simp add: Allocate SEGMENTATION)
      next
        case (Some i)
        note D = find_first_fit_SomeD[OF Some]
        have eq: "memory_blocks s = take i (memory_blocks s) @ memory_blocks s ! i
                    # drop (Suc i) (memory_blocks s)"
          using D by (simp add: id_take_nth_drop)
        have "range_invariant T (take i (memory_blocks s)
                @ segment_result (memory_blocks s ! i) sz pid @ drop (Suc i) (memory_blocks s))"
          by (rule range_invariant_replace[where b = "memory_blocks s ! i"])
             (use inv eq D szpos in \<open>simp_all add: chain_segment_result0 segment_result_sum
                no_adjacent_free_segment_result\<close>)
        then show ?thesis
          by (simp add: Allocate SEGMENTATION allocate_segmentation_success_blocks[OF fresh Some])
      qed
    qed
  qed
qed

lemma run_Cons: "run s (c # cs) = run (snd (call c s)) cs"
  by (simp add: run_def)

lemma run_Nil: "run s [] = s"
  by (simp add: run_def)

lemma run_range_invariant:
  assumes "0 < page_size s" and "range_invariant T (memory_blocks s)"
    and "\<forall>c\<in>set cs. segment_size_positive c"
  shows "range_invariant T (memory_blocks (run s cs))"
  using assms
proof (induction cs arbitrary: s)
  case Nil
  then show ?case by (simp add: run_Nil)
next
  case (Cons c cs)
  have "range_invariant T (memory_blocks (snd (call c s)))"
    using Cons.prems by (intro call_range_invariant) simp_all
  then show ?case
    using Cons.IH[of "snd (call c s)"] Cons.prems by (simp add: run_Cons)
qed

subsection \<open>Blocks owned by a process\<close>

lemma owned_blocks_append [simp]:
  "owned_blocks q (xs @ ys) = owned_blocks q xs @ owned_blocks q ys"
  by (simp add: owned_blocks_def)

lemma owned_blocks_Cons:
  "owned_blocks q (b # bs) =
     (if process_id b = Some q then b # owned_blocks q bs else owned_blocks q bs)"
  by (simp add: owned_blocks_def)

lemma owned_blocks_free: "is_free b \<Longrightarrow> owned_blocks q (b # bs) = owned_blocks q bs"
  by (simp add: owned_blocks_def is_free_def)

lemma owned_blocks_split_result:
  "owned_blocks q (split_result b fs psz pid) =
     (if q = pid then [MemoryBlock_new fs psz (Some pid)] else [])"
  by (simp add: owned_blocks_def split_result_def MemoryBlock_new_def)

lemma owned_blocks_segment_result:
  "owned_blocks q (segment_result b sz pid) =
     (if q = pid then [MemoryBlock_new (start b) sz (Some pid)] else [])"
  by (simp add: owned_blocks_def segment_result_def MemoryBlock_new_def)

lemma owned_blocks_merge [simp]:
  "owned_blocks q (merge_adjacent_free_blocks bs) = owned_blocks q bs"
  by (induction bs rule: merge_adjacent_free_blocks.induct)
     (auto simp: owned_blocks_def is_free_def MemoryBlock_new_def)

lemma owned_blocks_release:
  "owned_blocks q (release_blocks pid bs) = (if q = pid then [] else owned_blocks q bs)"
  by (induction bs) (auto simp: owned_blocks_def release_blocks_def free_block_def
      MemoryBlock_new_def)

lemma release_blocks_id: "owned_blocks pid bs = [] \<Longrightarrow> release_blocks pid bs = bs"
  by (induction bs) (auto simp: owned_blocks_def release_blocks_def split: if_splits)

lemma free_first_match_owned:
  "owned_blocks pid bs = seg # rest \<Longrightarrow>
     owned_blocks pid (free_first_match (start seg) pid bs) = rest
     \<and> release_blocks pid (free_first_match (start seg) pid bs) = release_blocks pid bs"
proof (induction bs)
  case Nil
  then show ?case by (simp add: owned_blocks_def)
next
  case (Cons b bs)
  show ?case
  proof (cases "process_id b = Some pid")
    case True
    then have "b = seg" "owned_blocks pid bs = rest"
      using Cons.prems by (simp_all add: owned_blocks_Cons)
    then show ?thesis
      using True
      by (simp add: owned_blocks_Cons release_blocks_def free_block_def MemoryBlock_new_def)
  next
    case False
    then have "owned_blocks pid bs = seg # rest"
      using Cons.prems by (simp add: owned_blocks_Cons)
    then show ?thesis
      using False Cons.IH by (simp add: owned_blocks_Cons release_blocks_def)
  qed
qed

lemma fold_free_first_match_release:
  "owned_blocks pid bs = segs \<Longrightarrow>
     fold (\<lambda>segment. free_first_match (start segment) pid) segs bs = release_blocks pid bs"
proof (induction segs arbitrary: bs)
  case Nil
  then show ?case by (simp add: release_blocks_id)
next
  case (Cons seg rest)
  from free_first_match_owned[OF Cons.prems]
  show ?case using Cons.IH by simp
qed

subsection \<open>Releasing the frames of a process\<close>

lemma length_fold_release_page [simp]: "length (fold release_page pgs pt) = length pt"
  by (induction pgs arbitrary: pt) (auto simp: release_page_def split: option.splits)

lemma nth_fold_release_page:
  "f < length pt \<Longrightarrow>
     fold release_page pgs pt ! f =
       (if Some f \<in> frame_id ` set pgs then None else pt ! f)"
proof (induction pgs arbitrary: pt)
  case Nil
  then show ?case by simp
next
  case (Cons pg pgs)
  show ?case
  proof (cases "frame_id pg")
    case None
    then show ?thesis using Cons by (auto simp: release_page_def)
  next
    case (Some g)
    then show ?thesis
      using Cons by (auto simp: release_page_def nth_list_update)
  qed
qed

lemma fold_release_page_map:
  assumes "{f. f < length pt \<and> pt ! f = Some pid} = {f. Some f \<in> frame_id ` set pgs}"
  shows "fold release_page pgs pt = map (\<lambda>ow. if ow = Some pid then None else ow) pt"
proof (rule nth_equalityI)
  show "length (fold release_page pgs pt) =
          length (map (\<lambda>ow. if ow = Some pid then None else ow) pt)" by simp
next
  fix f assume "f < length (fold release_page pgs pt)"
  then have f: "f < length pt" by simp
  have "Some f \<in> frame_id ` set pgs \<longleftrightarrow> pt ! f = Some pid"
    using assms f by blast
  then show "fold release_page pgs pt ! f =
          map (\<lambda>ow. if ow = Some pid then None else ow) pt ! f"
    using f by (auto simp: nth_fold_release_page)
qed

lemma map_clear_id:
  "Some pid \<notin> set pt \<Longrightarrow> map (\<lambda>ow. if ow = Some pid then None else ow) pt = pt"
  by (induction pt) auto

subsection \<open>Deallocation in a consistent state\<close>

lemma deallocate_process_wf:
  assumes wf: "wf_state s" and live: "processes s pid = Some pr"
  shows "deallocate_process s pid =
           (True, s\<lparr>memory_blocks :=
                       merge_adjacent_free_blocks (release_blocks pid (memory_blocks s)),
                     page_table :=
                       map (\<lambda>ow. if ow = Some pid then None else ow) (page_table s),
                     processes := (processes s)(pid := None),
                     events := events s @
                       [\<lparr>event_type = ''DEALLOCATION'', event_process_id = pid,
                         details = DeallocatedProcess pid\<rparr>]\<rparr>)"
proof -
  have id: "proc_id pr = pid"
    and fr: "{f. f < length (page_table s) \<and> page_table s ! f = Some pid} =
               {f. Some f \<in> frame_id ` set (pages pr)}"
    and ow: "pages pr = [] \<Longrightarrow> owned_blocks pid (memory_blocks s) = segments pr"
    and na: "no_adjacent_free (memory_blocks s)"
    using wf live by (auto simp: wf_state_def)
  show ?thesis
  proof (cases "pages pr = []")
    case False
    then show ?thesis
      using live id fold_release_page_map[OF fr]
      by (simp add: deallocate_process_def deallocate_paging_def log_event_def)
  next
    case True
    have "{f. f < length (page_table s) \<and> page_table s ! f = Some pid} = {}"
      using fr True by simp
    then have "Some pid \<notin> set (page_table s)"
      by (auto simp: in_set_conv_nth)
    then have pt: "map (\<lambda>ow. if ow = Some pid then None else ow) (page_table s) = page_table s"
      by (rule map_clear_id)
    show ?thesis
    proof (cases "segments pr = []")
      case False
      then show ?thesis
        using live id True pt fold_free_first_match_release[OF ow[OF True]]
        by (simp add: deallocate_process_def deallocate_segmentation_def log_event_def)
    next
      case sg: True
      have "owned_blocks pid (memory_blocks s) = []" using ow[OF True] sg by simp
      then have "release_blocks pid (memory_blocks s) = memory_blocks s"
        by (rule release_blocks_id)
      then have "merge_adjacent_free_blocks (release_blocks pid (memory_blocks s)) =
                   memory_blocks s"
        using na by (simp add: merge_id)
      then show ?thesis
        using live True sg pt
        by (simp add: deallocate_process_def log_event_def)
    qed
  qed
qed

lemma wf_state_cong:
  assumes "memory_blocks s' = memory_blocks s" "page_table s' = page_table s"
    "processes s' = processes s"
  shows "wf_state s' = wf_state s"
  by (simp add: wf_state_def assms)

lemma init_wf: "init total_size ps = Inr s \<Longrightarrow> wf_state s"
  by (auto simp: init_def wf_state_def no_adjacent_free_def owned_blocks_def
      MemoryBlock_new_def split: if_splits)

lemma wf_register:
  assumes wf: "wf_state s" and fresh: "processes s pid = None"
  shows "wf_state (s\<lparr>processes := (processes s)(pid \<mapsto>
            \<lparr>proc_id = pid, proc_size = sz, pages = [], segments = []\<rparr>)\<rparr>)"
proof -
  have a: "Some pid \<notin> set (page_table s)" "owned_blocks pid (memory_blocks s) = []"
    using wf fresh by (auto simp: wf_state_def)
  have b: "{f. f < length (page_table s) \<and> page_table s ! f = Some pid} = {}"
    using a(1) by (auto simp: in_set_conv_nth)
  show ?thesis
    using wf a b unfolding wf_state_def by auto
qed

lemma assign_page_blocks_props:
  assumes "no_adjacent_free (memory_blocks s)"
  shows "no_adjacent_free (memory_blocks (assign_page pid i f s))
       \<and> (\<forall>q. q \<noteq> pid \<longrightarrow> owned_blocks q (memory_blocks (assign_page pid i f s)) =
                             owned_blocks q (memory_blocks s))"
proof (cases pid i f s rule: assign_page_blocks)
  case unchanged
  then show ?thesis using assms by simp
next
  case (split xs b ys)
  have "no_adjacent_free (xs @ split_result b (int f * page_size s) (page_size s) pid @ ys)"
    using assms split(1,2)
    by (intro no_adjacent_free_replace[where b = b])
       (simp_all add: no_adjacent_free_split_result)
  then show ?thesis
    using split
    by (simp add: owned_blocks_split_result owned_blocks_free)
qed

lemma fold_assign_page_blocks_props:
  assumes "no_adjacent_free (memory_blocks s)"
  shows "no_adjacent_free (memory_blocks (fold (\<lambda>i. assign_page pid i (g i)) js s))
       \<and> (\<forall>q. q \<noteq> pid \<longrightarrow>
             owned_blocks q (memory_blocks (fold (\<lambda>i. assign_page pid i (g i)) js s)) =
             owned_blocks q (memory_blocks s))"
  using assms
proof (induction js arbitrary: s)
  case Nil
  then show ?case by simp
next
  case (Cons j js)
  from assign_page_blocks_props[OF Cons.prems, of pid j "g j"]
  show ?case using Cons.IH[of "assign_page pid j (g j) s"] by simp
qed

lemma wf_allocate_paging_success:
  assumes wf: "wf_state s" and fresh: "processes s pid = None"
    and ok: "\<not> int (length (free_frames (page_table s))) < num_pages_needed s sz"
  shows "wf_state (snd (allocate_process s pid sz PAGING))"
proof -
  define n where "n = nat (num_pages_needed s sz)"
  define ff where "ff = free_frames (page_table s)"
  define s1 where "s1 = s\<lparr>processes := (processes s)(pid \<mapsto>
                        \<lparr>proc_id = pid, proc_size = sz, pages = [], segments = []\<rparr>)\<rparr>"
  define s2 where "s2 = fold (\<lambda>i. assign_page pid i (ff ! i)) [0..<n] s1"
  let ?s' = "snd (allocate_process s pid sz PAGING)"
  have le: "n \<le> length ff" using ok by (simp add: n_def ff_def)
  have S: "memory_blocks ?s' = memory_blocks s2" "page_table ?s' = page_table s2"
    "processes ?s' = processes s2"
    using allocate_paging_success[OF fresh ok]
    by (simp_all add: Let_def s2_def s1_def n_def ff_def)
  have wf1: "wf_state s1" unfolding s1_def using wf fresh by (rule wf_register)
  have notin: "Some pid \<notin> set (page_table s)"
    and own0: "owned_blocks pid (memory_blocks s) = []"
    using wf fresh by (auto simp: wf_state_def)
  have na: "no_adjacent_free (memory_blocks s1)" using wf1 by (simp add: wf_state_def)
  note B = fold_assign_page_blocks_props[OF na, of pid "\<lambda>i. ff ! i" "[0..<n]", folded s2_def]
  have bs1: "memory_blocks s1 = memory_blocks s" by (simp add: s1_def)
  have len: "length (page_table s2) = length (page_table s)"
    by (simp add: s2_def fold_assign_page_table s1_def)
  have pt: "page_table s2 ! f = (if f \<in> set (take n ff) then Some pid else page_table s ! f)"
    if "f < length (page_table s)" for f
    using that le by (simp add: s2_def fold_assign_page_table s1_def nth_fold_update nth_image)
  have ffset: "set (take n ff) \<subseteq> {f. f < length (page_table s) \<and> page_table s ! f = None}"
    using set_take_subset[of n ff] by (auto simp: ff_def free_frames_set)
  have pr: "processes s2 = (processes s)(pid \<mapsto>
              \<lparr>proc_id = pid, proc_size = sz,
               pages = map (\<lambda>i. \<lparr>page_id = i, frame_id = Some (ff ! i)\<rparr>) [0..<n],
               segments = []\<rparr>)"
    by (auto simp: s2_def fold_assign_processes s1_def fun_eq_iff)
  have frames_pid: "{f. Some f \<in> frame_id `
                       set (map (\<lambda>i. \<lparr>page_id = i, frame_id = Some (ff ! i)\<rparr>) [0..<n])}
                    = set (take n ff)"
    using le nth_image[of n ff] by (auto simp: image_iff)
  have old: "\<And>q. Some q \<in> set (page_table s2) \<Longrightarrow> q = pid \<or> Some q \<in> set (page_table s)"
  proof -
    fix q assume "Some q \<in> set (page_table s2)"
    then obtain f where f: "f < length (page_table s2)" "page_table s2 ! f = Some q"
      by (auto simp: in_set_conv_nth)
    then have "f < length (page_table s)" using len by simp
    then show "q = pid \<or> Some q \<in> set (page_table s)"
      using pt[of f] f(2) nth_mem[of f "page_table s"] by (auto split: if_splits)
  qed
  have "wf_state s2"
    unfolding wf_state_def
  proof (intro conjI allI impI)
    show "no_adjacent_free (memory_blocks s2)" using B by simp
  next
    fix q assume q: "processes s2 q = None"
    then have qn: "q \<noteq> pid" "processes s q = None" by (auto simp: pr split: if_splits)
    then have "Some q \<notin> set (page_table s)" "owned_blocks q (memory_blocks s) = []"
      using wf by (auto simp: wf_state_def)
    then show "Some q \<notin> set (page_table s2)" "owned_blocks q (memory_blocks s2) = []"
      using old[of q] qn B bs1 by auto
  next
    fix q p assume q: "processes s2 q = Some p"
    show "proc_id p = q"
      using q wf by (auto simp: pr wf_state_def split: if_splits)
    show "\<forall>pg\<in>set (pages p). \<exists>f<length (page_table s2). frame_id pg = Some f"
    proof (cases "q = pid")
      case True
      then have "pages p = map (\<lambda>i. \<lparr>page_id = i, frame_id = Some (ff ! i)\<rparr>) [0..<n]"
        using q by (auto simp: pr)
      moreover have "ff ! i < length (page_table s)" if "i < n" for i
      proof -
        have "ff ! i \<in> set ff" using that le by simp
        then show ?thesis by (simp add: ff_def free_frames_set)
      qed
      ultimately show ?thesis by (auto simp: len)
    next
      case False
      then show ?thesis using q wf by (auto simp: pr wf_state_def len)
    qed
    show "{f. f < length (page_table s2) \<and> page_table s2 ! f = Some q} =
            {f. Some f \<in> frame_id ` set (pages p)}"
    proof (cases "q = pid")
      case True
      then have pg: "pages p = map (\<lambda>i. \<lparr>page_id = i, frame_id = Some (ff ! i)\<rparr>) [0..<n]"
        using q by (auto simp: pr)
      have "{f. f < length (page_table s2) \<and> page_table s2 ! f = Some q} = set (take n ff)"
      proof (intro set_eqI iffI)
        fix f assume "f \<in> {f. f < length (page_table s2) \<and> page_table s2 ! f = Some q}"
        then have f: "f < length (page_table s)" "page_table s2 ! f = Some pid"
          using True len by auto
        show "f \<in> set (take n ff)"
        proof (rule ccontr)
          assume "f \<notin> set (take n ff)"
          then have "page_table s ! f = Some pid" using pt[OF f(1)] f(2) by simp
          then show False using notin f(1) by (auto simp: in_set_conv_nth)
        qed
      next
        fix f assume "f \<in> set (take n ff)"
        then show "f \<in> {f. f < length (page_table s2) \<and> page_table s2 ! f = Some q}"
          using ffset pt[of f] True len by auto
      qed
      then show ?thesis using frames_pid pg by simp
    next
      case False
      then have ps: "processes s q = Some p" using q by (auto simp: pr)
      have "{f. f < length (page_table s2) \<and> page_table s2 ! f = Some q} =
              {f. f < length (page_table s) \<and> page_table s ! f = Some q}"
        using pt ffset False len by (auto split: if_splits)
      then show ?thesis using wf ps by (auto simp: wf_state_def)
    qed
    show "owned_blocks q (memory_blocks s2) = segments p" if e: "pages p = []"
    proof (cases "q = pid")
      case True
      then have pg: "pages p = map (\<lambda>i. \<lparr>page_id = i, frame_id = Some (ff ! i)\<rparr>) [0..<n]"
        "segments p = []"
        using q by (auto simp: pr)
      have "n = 0" using pg e by simp
      then have "memory_blocks s2 = memory_blocks s" by (simp add: s2_def s1_def)
      then show ?thesis using own0 True pg by simp
    next
      case False
      then have ps: "processes s q = Some p" using q by (auto simp: pr)
      then show ?thesis using wf False B bs1 e by (auto simp: wf_state_def)
    qed
  qed
  then show ?thesis using wf_state_cong[OF S] by simp
qed

lemma allocate_segmentation_success_processes:
  assumes "processes s pid = None"
    and "find_first_fit (memory_blocks s) sz = Some i"
  shows "processes (snd (allocate_process s pid sz SEGMENTATION)) =
           (processes s)(pid \<mapsto>
              \<lparr>proc_id = pid, proc_size = sz, pages = [],
               segments = [MemoryBlock_new (start (memory_blocks s ! i)) sz (Some pid)]\<rparr>)"
  using assms
  by (auto simp: allocate_process_def allocate_segmentation_def Let_def upd_process_def
      log_event_def fun_eq_iff)

lemma wf_allocate_segmentation_success:
  assumes wf: "wf_state s" and fresh: "processes s pid = None"
    and fit: "find_first_fit (memory_blocks s) sz = Some i"
  shows "wf_state (snd (allocate_process s pid sz SEGMENTATION))"
proof -
  let ?s' = "snd (allocate_process s pid sz SEGMENTATION)"
  define xs where "xs = take i (memory_blocks s)"
  define ys where "ys = drop (Suc i) (memory_blocks s)"
  define b where "b = memory_blocks s ! i"
  note D = find_first_fit_SomeD[OF fit]
  have eq: "memory_blocks s = xs @ b # ys"
    using D by (simp add: xs_def ys_def b_def id_take_nth_drop)
  have fb: "is_free b" using D by (simp add: b_def)
  have bs': "memory_blocks ?s' = xs @ segment_result b sz pid @ ys"
    using allocate_segmentation_success_blocks[OF fresh fit] by (simp add: xs_def ys_def b_def)
  have pt': "page_table ?s' = page_table s"
    using allocate_segmentation_success_fields(2)[OF fresh fit] .
  have pr': "processes ?s' = (processes s)(pid \<mapsto>
              \<lparr>proc_id = pid, proc_size = sz, pages = [],
               segments = [MemoryBlock_new (start b) sz (Some pid)]\<rparr>)"
    using allocate_segmentation_success_processes[OF fresh fit] by (simp add: b_def)
  have notin: "Some pid \<notin> set (page_table s)"
    and own0: "owned_blocks pid (memory_blocks s) = []"
    and na: "no_adjacent_free (memory_blocks s)"
    using wf fresh by (auto simp: wf_state_def)
  have nof: "{f. f < length (page_table s) \<and> page_table s ! f = Some pid} = {}"
    using notin by (auto simp: in_set_conv_nth)
  have own: "owned_blocks q (memory_blocks ?s') =
               (if q = pid then [MemoryBlock_new (start b) sz (Some pid)]
                else owned_blocks q (memory_blocks s))" for q
    using own0 fb by (auto simp: bs' eq owned_blocks_segment_result owned_blocks_free)
  have na': "no_adjacent_free (memory_blocks ?s')"
    unfolding bs' using na fb
    by (intro no_adjacent_free_replace[where b = b])
       (simp_all add: eq no_adjacent_free_segment_result)
  show ?thesis
    unfolding wf_state_def
  proof (intro conjI allI impI)
    show "no_adjacent_free (memory_blocks ?s')" by (rule na')
  next
    fix q assume "processes ?s' q = None"
    then have "q \<noteq> pid" "processes s q = None" by (auto simp: pr' split: if_splits)
    then show "Some q \<notin> set (page_table ?s')" "owned_blocks q (memory_blocks ?s') = []"
      using wf by (auto simp: pt' own wf_state_def)
  next
    fix q p assume q: "processes ?s' q = Some p"
    show "proc_id p = q"
      using q wf by (auto simp: pr' wf_state_def split: if_splits)
    show "\<forall>pg\<in>set (pages p). \<exists>f<length (page_table ?s'). frame_id pg = Some f"
      using q wf by (auto simp: pr' pt' wf_state_def split: if_splits)
    show "{f. f < length (page_table ?s') \<and> page_table ?s' ! f = Some q} =
            {f. Some f \<in> frame_id ` set (pages p)}"
    proof (cases "q = pid")
      case True
      then show ?thesis using q nof by (auto simp: pr' pt')
    next
      case False
      then have "processes s q = Some p" using q by (simp add: pr')
      then show ?thesis using wf by (auto simp: pt' wf_state_def)
    qed
    show "owned_blocks q (memory_blocks ?s') = segments p" if e: "pages p = []"
    proof (cases "q = pid")
      case True
      then show ?thesis using q by (auto simp: pr' own)
    next
      case False
      then have "processes s q = Some p" using q by (simp add: pr')
      then show ?thesis using wf e False by (auto simp: own wf_state_def)
    qed
  qed
qed

lemma wf_deallocate:
  assumes wf: "wf_state s" and live: "processes s pid = Some pr"
  shows "wf_state (snd (deallocate_process s pid))"
proof -
  let ?s' = "snd (deallocate_process s pid)"
  have bs': "memory_blocks ?s' =
               merge_adjacent_free_blocks (release_blocks pid (memory_blocks s))"
    and pt': "page_table ?s' = map (\<lambda>ow. if ow = Some pid then None else ow) (page_table s)"
    and pr': "processes ?s' = (processes s)(pid := None)"
    by (simp_all add: deallocate_process_wf[OF wf live])
  have own: "owned_blocks q (memory_blocks ?s') =
               (if q = pid then [] else owned_blocks q (memory_blocks s))" for q
    by (simp add: bs' owned_blocks_release)
  have fr: "{f. f < length (page_table ?s') \<and> page_table ?s' ! f = Some q} =
              {f. f < length (page_table s) \<and> page_table s ! f = Some q}"
    if "q \<noteq> pid" for q
    using that by (auto simp: pt' split: if_splits)
  show ?thesis
    unfolding wf_state_def
  proof (intro conjI allI impI)
    show "no_adjacent_free (memory_blocks ?s')" by (simp add: bs')
  next
    fix q assume q: "processes ?s' q = None"
    show "Some q \<notin> set (page_table ?s')"
    proof (cases "q = pid")
      case True
      then show ?thesis by (auto simp: pt')
    next
      case False
      then have "processes s q = None" using q by (simp add: pr')
      then have "Some q \<notin> set (page_table s)" using wf by (auto simp: wf_state_def)
      then show ?thesis by (auto simp: pt' split: if_splits)
    qed
    show "owned_blocks q (memory_blocks ?s') = []"
    proof (cases "q = pid")
      case True
      then show ?thesis by (simp add: own)
    next
      case False
      then have "processes s q = None" using q by (simp add: pr')
      then show ?thesis using wf False by (auto simp: own wf_state_def)
    qed
  next
    fix q p assume q: "processes ?s' q = Some p"
    then have ne: "q \<noteq> pid" and old: "processes s q = Some p"
      by (auto simp: pr' split: if_splits)
    show "proc_id p = q" using old wf by (auto simp: wf_state_def)
    show "\<forall>pg\<in>set (pages p). \<exists>f<length (page_table ?s'). frame_id pg = Some f"
      using old wf by (auto simp: pt' wf_state_def)
    show "{f. f < length (page_table ?s') \<and> page_table ?s' ! f = Some q} =
            {f. Some f \<in> frame_id ` set (pages p)}"
      using fr[OF ne] old wf by (auto simp: wf_state_def)
    show "owned_blocks q (memory_blocks ?s') = segments p" if "pages p = []"
      using that old wf ne by (auto simp: own wf_state_def)
  qed
qed

lemma call_wf:
  assumes wf: "wf_state s"
  shows "wf_state (snd (call c s))"
proof (cases c)
  case (Deallocate pid)
  show ?thesis
  proof (cases "processes s pid")
    case None
    show ?thesis
      using deallocate_unknown[OF None] wf wf_state_cong[of "snd (deallocate_process s pid)" s]
      by (simp add: Deallocate)
  next
    case (Some pr)
    then show ?thesis using wf_deallocate[OF wf Some] by (simp add: Deallocate)
  qed
next
  case (Allocate pid sz meth)
  show ?thesis
  proof (cases "processes s pid = None")
    case False
    show ?thesis
      using allocate_duplicate[OF False, of sz meth] wf
        wf_state_cong[of "snd (allocate_process s pid sz meth)" s]
      by (simp add: Allocate)
  next
    case fresh: True
    let ?s1 = "s\<lparr>processes := (processes s)(pid \<mapsto>
                  \<lparr>proc_id = pid, proc_size = sz, pages = [], segments = []\<rparr>)\<rparr>"
    have wf1: "wf_state ?s1" using wf fresh by (rule wf_register)
    show ?thesis
    proof (cases meth)
      case PAGING
      show ?thesis
      proof (cases "int (length (free_frames (page_table s))) < num_pages_needed s sz")
        case True
        show ?thesis
          using allocate_paging_fail[OF fresh True] wf1
            wf_state_cong[of "snd (allocate_process s pid sz PAGING)" ?s1]
          by (simp add: Allocate PAGING)
      next
        case False
        then show ?thesis
          using wf_allocate_paging_success[OF wf fresh False] by (simp add: Allocate PAGING)
      qed
    next
      case SEGMENTATION
      show ?thesis
      proof (cases "find_first_fit (memory_blocks s) sz")
        case None
        show ?thesis
          using allocate_segmentation_fail[OF fresh None] wf1
            wf_state_cong[of "snd (allocate_process s pid sz SEGMENTATION)" ?s1]
          by (simp add: Allocate SEGMENTATION)
      next
        case (Some i)
        then show ?thesis
          using wf_allocate_segmentation_success[OF wf fresh Some]
          by (simp add: Allocate SEGMENTATION)
      qed
    qed
  qed
qed

lemma reachable_wf: "reachable s \<Longrightarrow> wf_state s"
  by (induction rule: reachable.induct) (auto intro: init_wf call_wf)

lemma reachable_run: "reachable s \<Longrightarrow> reachable (run s cs)"
proof (induction cs arbitrary: s)
  case Nil
  then show ?case by (simp add: run_Nil)
next
  case (Cons c cs)
  then show ?case by (simp add: run_Cons reachable_call)
qed

lemma allocate_segmentation_success_events:
  assumes "processes s pid = None"
    and "find_first_fit (memory_blocks s) sz = Some i"
  shows "events (snd (allocate_process s pid sz SEGMENTATION)) =
           events s @ [\<lparr>event_type = ''ALLOCATION'', event_process_id = pid,
                        details = AllocatedSegment pid (start (memory_blocks s ! i))\<rparr>]"
  using assms
  by (simp add: allocate_process_def allocate_segmentation_def Let_def upd_process_def
      log_event_def MemoryBlock_new_def)

lemma allocate_fresh_not_duplicate:
  assumes fresh: "processes s pid = None"
  shows "details (last (events (snd (allocate_process s pid sz meth)))) \<noteq> ProcessAlreadyExists"
proof (cases meth)
  case PAGING
  show ?thesis
  proof (cases "int (length (free_frames (page_table s))) < num_pages_needed s sz")
    case True
    then show ?thesis
      using allocate_paging_fail[OF fresh True] by (simp add: PAGING)
  next
    case False
    then show ?thesis
      using allocate_paging_success[OF fresh False] by (simp add: PAGING Let_def)
  qed
next
  case SEGMENTATION
  show ?thesis
  proof (cases "find_first_fit (memory_blocks s) sz")
    case None
    then show ?thesis
      using allocate_segmentation_fail[OF fresh None] by (simp add: SEGMENTATION)
  next
    case (Some i)
    then show ?thesis
      using allocate_segmentation_success_events[OF fresh Some] by (simp add: SEGMENTATION)
  qed
qed

lemma engine_paged_fields:
  "memory_blocks engine_paged =
     [\<lparr>start = 0, size_b = 4, process_id = Some 1\<rparr>,
      \<lparr>start = 4, size_b = 4, process_id = Some 1\<rparr>,
      \<lparr>start = 8, size_b = 4, process_id = Some 2\<rparr>,
      \<lparr>start = 12, size_b = 4, process_id = None\<rparr>]"
  "page_table engine_paged = [Some 1, Some 1, Some 2, None]"
  "processes engine_paged 1 \<noteq> None"
  by (simp_all add: engine_paged_def engine_16_4_eq engine_defs upt4 upt2)

lemma reachable_engine_16_4: "reachable engine_16_4"
  by (rule reachable_init[of 16 4]) (simp add: engine_16_4_def init_def)

subsection \<open>Addresses in a chain\<close>

lemma chain_covers:
  "chain a bs z \<Longrightarrow> a \<le> x \<Longrightarrow> x < z \<Longrightarrow> \<exists>b\<in>set bs. covers b x"
proof (induction bs arbitrary: a)
  case Nil
  then show ?case by simp
next
  case (Cons b bs)
  show ?case
  proof (cases "x < a + size_b b")
    case True
    then show ?thesis using Cons.prems by (auto simp: covers_def)
  next
    case False
    then have "\<exists>c\<in>set bs. covers c x"
      using Cons.prems by (intro Cons.IH[of "a + size_b b"]) auto
    then show ?thesis by auto
  qed
qed

lemma chain_le: "chain a bs z \<Longrightarrow> a \<le> z"
  by (induction bs arbitrary: a) force+

lemma chain_bounds:
  "chain a bs z \<Longrightarrow> b \<in> set bs \<Longrightarrow> a \<le> start b \<and> start b + size_b b \<le> z"
proof (induction bs arbitrary: a)
  case Nil
  then show ?case by simp
next
  case (Cons c bs)
  have tl: "chain (a + size_b c) bs z" and hd: "start c = a" "0 < size_b c"
    using Cons.prems(1) by simp_all
  show ?case
  proof (cases "b = c")
    case True
    then show ?thesis using hd chain_le[OF tl] by simp
  next
    case False
    then have "b \<in> set bs" using Cons.prems(2) by simp
    then have "a + size_b c \<le> start b \<and> start b + size_b b \<le> z"
      using Cons.IH[OF tl] by simp
    then show ?thesis using hd by simp
  qed
qed

lemma chain_cover_unique:
  "chain a bs z \<Longrightarrow> b \<in> set bs \<Longrightarrow> c \<in> set bs \<Longrightarrow> covers b x \<Longrightarrow> covers c x \<Longrightarrow> b = c"
proof (induction bs arbitrary: a)
  case Nil
  then show ?case by simp
next
  case (Cons d bs)
  have tl: "chain (a + size_b d) bs z" and hd: "start d = a"
    using Cons.prems(1) by simp_all
  have later: "\<not> covers d x" if "e \<in> set bs" "covers e x" for e
    using chain_bounds[OF tl that(1)] that(2) hd by (simp add: covers_def)
  show ?case
  proof (cases "b = d")
    case True
    then show ?thesis using later[of c] Cons.prems by auto
  next
    case False
    then have b: "b \<in> set bs" using Cons.prems(2) by simp
    then have "c \<noteq> d" using later[OF b Cons.prems(4)] Cons.prems(5) by auto
    then have "c \<in> set bs" using Cons.prems(3) by simp
    then show ?thesis using Cons.IH[OF tl b] Cons.prems by simp
  qed
qed

section \<open>Claims about histories of calls\<close>

subsection \<open>C2: the block list invariant\<close>

text \<open>
  Claim C2 as stated fails. A segmentation request of size 0 on a new 16-unit engine
  succeeds and puts a block of length 0 in front of the free block, so the block list
  is no longer a sequence of ranges with positive lengths.
\<close>

theorem zero_size_segment_breaks_range_invariant:
  "memory_blocks (run engine_16_4 [Allocate 1 0 SEGMENTATION]) =
     [\<lparr>start = 0, size_b = 0, process_id = Some 1\<rparr>,
      \<lparr>start = 0, size_b = 16, process_id = None\<rparr>]
   \<and> \<not> range_invariant 16 (memory_blocks (run engine_16_4 [Allocate 1 0 SEGMENTATION]))"
  by (simp add: engine_16_4_eq engine_defs range_invariant_def)

text \<open>
  Claim C2, amended. On an engine constructed with positive total size and positive
  page size, after every history of allocate and deallocate calls in which each
  segmentation request has a positive size, the block list is a chain of blocks with
  positive lengths from 0 to the total size (each block starts where the previous one
  stops) and no two neighbouring blocks are both free. Hence every block lies inside
  the memory, every address of the memory lies in a block, and no address lies in two
  different blocks. Paging requests may have any size, and the page size need not
  divide the total size.
\<close>

theorem block_list_invariant:
  assumes "0 < total_size" and "0 < ps" and "init total_size ps = Inr s0"
    and "\<forall>c\<in>set cs. segment_size_positive c"
  shows "range_invariant total_size (memory_blocks (run s0 cs))
       \<and> (\<forall>b\<in>set (memory_blocks (run s0 cs)).
             0 < size_b b \<and> 0 \<le> start b \<and> start b + size_b b \<le> total_size)
       \<and> (\<forall>a. 0 \<le> a \<and> a < total_size \<longrightarrow>
             (\<exists>b\<in>set (memory_blocks (run s0 cs)). covers b a))
       \<and> (\<forall>b\<in>set (memory_blocks (run s0 cs)). \<forall>c\<in>set (memory_blocks (run s0 cs)).
             \<forall>a. covers b a \<and> covers c a \<longrightarrow> b = c)"
proof -
  have s0: "page_size s0 = ps"
    "memory_blocks s0 = [\<lparr>start = 0, size_b = total_size, process_id = None\<rparr>]"
    using assms(2,3) by (auto simp: init_def MemoryBlock_new_def)
  have "range_invariant total_size (memory_blocks s0)"
    using assms(1) by (simp add: s0 range_invariant_def no_adjacent_free_def)
  then have inv: "range_invariant total_size (memory_blocks (run s0 cs))"
    using run_range_invariant[of s0 total_size cs] assms(2,4) s0 by simp
  then have ch: "chain 0 (memory_blocks (run s0 cs)) total_size"
    by (simp add: range_invariant_def)
  have pos: "0 < size_b b" if "b \<in> set bs" "chain a bs z" for a bs z b
    using that by (induction bs arbitrary: a) auto
  show ?thesis
    using inv chain_bounds[OF ch] chain_covers[OF ch] chain_cover_unique[OF ch] pos[OF _ ch]
    by blast
qed

theorem block_list_invariant_witness:
  "range_invariant 16
     (memory_blocks (run engine_16_4
        [Allocate 1 6 PAGING, Allocate 2 5 SEGMENTATION, Deallocate 1, Allocate 3 0 PAGING]))"
proof -
  have i: "init 16 4 = Inr engine_16_4" by (simp add: engine_16_4_def init_def)
  show ?thesis
    using block_list_invariant[OF _ _ i,
        of "[Allocate 1 6 PAGING, Allocate 2 5 SEGMENTATION, Deallocate 1, Allocate 3 0 PAGING]"]
    by simp
qed

subsection \<open>C6: deallocation\<close>

text \<open>
  Claim C6. In every state that the interface can reach (a constructed engine followed
  by any calls), deallocation of an id that is not live returns failure and only logs
  the "Process not found" ERROR event. Deallocation of a live id returns success: every
  block owned by the process becomes free and the block list is then merged, every
  frame-table entry of the process is cleared, the process record is removed and a
  DEALLOCATION event is logged. Afterwards no two neighbouring blocks are free, the
  process owns no block and no frame, every other process owns the same blocks, the same
  frames and has the same record as before, and a later allocation with the same id is
  not rejected as a duplicate.
\<close>

theorem deallocate_process_spec:
  assumes "reachable s"
  shows "(processes s pid = None \<longrightarrow>
            deallocate_process s pid = (False, log_event s ''ERROR'' pid ProcessNotFound))
       \<and> (processes s pid \<noteq> None \<longrightarrow>
            deallocate_process s pid =
              (True,
               log_event
                 (s\<lparr>memory_blocks :=
                      merge_adjacent_free_blocks (release_blocks pid (memory_blocks s)),
                    page_table :=
                      map (\<lambda>ow. if ow = Some pid then None else ow) (page_table s),
                    processes := (processes s)(pid := None)\<rparr>)
                 ''DEALLOCATION'' pid (DeallocatedProcess pid))
          \<and> no_adjacent_free (memory_blocks (snd (deallocate_process s pid)))
          \<and> owned_blocks pid (memory_blocks (snd (deallocate_process s pid))) = []
          \<and> Some pid \<notin> set (page_table (snd (deallocate_process s pid)))
          \<and> (\<forall>q. q \<noteq> pid \<longrightarrow>
                 owned_blocks q (memory_blocks (snd (deallocate_process s pid))) =
                   owned_blocks q (memory_blocks s)
               \<and> (\<forall>f<length (page_table s).
                     (page_table (snd (deallocate_process s pid)) ! f = Some q) =
                     (page_table s ! f = Some q))
               \<and> processes (snd (deallocate_process s pid)) q = processes s q)
          \<and> processes (snd (deallocate_process s pid)) pid = None
          \<and> (\<forall>sz meth.
                 details (last (events
                   (snd (allocate_process (snd (deallocate_process s pid)) pid sz meth))))
                 \<noteq> ProcessAlreadyExists))"
proof (intro conjI impI)
  assume "processes s pid = None"
  then show "deallocate_process s pid = (False, log_event s ''ERROR'' pid ProcessNotFound)"
    by (simp add: deallocate_process_def)
next
  assume live: "processes s pid \<noteq> None"
  then obtain pr where pr: "processes s pid = Some pr" by auto
  have wf: "wf_state s" using assms by (rule reachable_wf)
  note E = deallocate_process_wf[OF wf pr]
  let ?s' = "snd (deallocate_process s pid)"
  have bs': "memory_blocks ?s' =
               merge_adjacent_free_blocks (release_blocks pid (memory_blocks s))"
    and pt': "page_table ?s' = map (\<lambda>ow. if ow = Some pid then None else ow) (page_table s)"
    and pr': "processes ?s' = (processes s)(pid := None)"
    by (simp_all add: E)
  show "deallocate_process s pid =
              (True,
               log_event
                 (s\<lparr>memory_blocks :=
                      merge_adjacent_free_blocks (release_blocks pid (memory_blocks s)),
                    page_table :=
                      map (\<lambda>ow. if ow = Some pid then None else ow) (page_table s),
                    processes := (processes s)(pid := None)\<rparr>)
                 ''DEALLOCATION'' pid (DeallocatedProcess pid))"
    by (simp add: E log_event_def)
  show "no_adjacent_free (memory_blocks ?s')" by (simp add: bs')
  show "owned_blocks pid (memory_blocks ?s') = []" by (simp add: bs' owned_blocks_release)
  show "Some pid \<notin> set (page_table ?s')" by (auto simp: pt')
  show "\<forall>q. q \<noteq> pid \<longrightarrow>
                 owned_blocks q (memory_blocks ?s') = owned_blocks q (memory_blocks s)
               \<and> (\<forall>f<length (page_table s).
                     (page_table ?s' ! f = Some q) = (page_table s ! f = Some q))
               \<and> processes ?s' q = processes s q"
    by (auto simp: bs' pt' pr' owned_blocks_release split: if_splits)
  show none: "processes ?s' pid = None" by (simp add: pr')
  show "\<forall>sz meth.
                 details (last (events (snd (allocate_process ?s' pid sz meth))))
                 \<noteq> ProcessAlreadyExists"
    using allocate_fresh_not_duplicate[OF none] by blast
qed

theorem deallocate_process_spec_witness:
  "reachable engine_paged \<and> processes engine_paged 1 \<noteq> None
   \<and> fst (deallocate_process engine_paged 1) = True
   \<and> memory_blocks (snd (deallocate_process engine_paged 1)) =
       [\<lparr>start = 0, size_b = 8, process_id = None\<rparr>,
        \<lparr>start = 8, size_b = 4, process_id = Some 2\<rparr>,
        \<lparr>start = 12, size_b = 4, process_id = None\<rparr>]
   \<and> page_table (snd (deallocate_process engine_paged 1)) = [None, None, Some 2, None]
   \<and> processes (snd (deallocate_process engine_paged 1)) 1 = None"
proof -
  have r: "reachable engine_paged"
    unfolding engine_paged_def by (rule reachable_run[OF reachable_engine_16_4])
  show ?thesis
    using deallocate_process_spec[OF r, of 1] r engine_paged_fields(3)
    by (simp add: engine_paged_fields(1,2) log_event_def release_blocks_def free_block_def
        MemoryBlock_new_def is_free_def)
qed

subsection \<open>C4: the paging path\<close>



section \<open>The frame table and the block list\<close>

subsection \<open>Frame arithmetic\<close>

lemma frame_unique:
  assumes "0 < ps" "int f * ps \<le> int g * ps" "int g * ps < int f * ps + ps"
  shows "g = f"
proof -
  have "int f \<le> int g" using assms(1,2) by (simp add: mult_le_cancel_right)
  moreover have "int g * ps < (int f + 1) * ps" using assms(3) by (simp add: algebra_simps)
  then have "int g < int f + 1" using assms(1) by (simp add: mult_less_cancel_right)
  ultimately show ?thesis by simp
qed

lemma frame_end_in_block:
  assumes "0 < ps" "ps dvd start b" "ps dvd size_b b" "covers b (int f * ps)"
  shows "int f * ps + ps \<le> start b + size_b b"
proof -
  from assms(2,3) have "ps dvd start b + size_b b" by simp
  then obtain k where k: "start b + size_b b = k * ps" by (auto simp: dvd_def mult.commute)
  have "int f * ps < k * ps" using assms(4) k by (simp add: covers_def)
  then have "int f < k" using assms(1) by (simp add: mult_less_cancel_right)
  then have "int f + 1 \<le> k" by simp
  then have "(int f + 1) * ps \<le> k * ps" using assms(1) by (simp add: mult_le_cancel_right)
  then show ?thesis using k by (simp add: algebra_simps)
qed

lemma frame_below_total:
  assumes "0 < ps" "f < nat (T div ps)"
  shows "int f * ps + ps \<le> T"
proof -
  have "int f + 1 \<le> T div ps" using assms(2) by simp
  then have "(int f + 1) * ps \<le> (T div ps) * ps"
    using assms(1) by (simp add: mult_le_cancel_right)
  moreover have "T div ps * ps + T mod ps = T" by simp
  moreover have "0 \<le> T mod ps" using assms(1) by simp
  ultimately have "(int f + 1) * ps \<le> T" by linarith
  then show ?thesis by (simp add: algebra_simps)
qed

subsection \<open>Blocks that agree with the frame table\<close>

lemma frame_ok_update_other:
  assumes "frame_ok ps pt x" "\<not> covers x (int f * ps)"
  shows "frame_ok ps (pt[f := v]) x"
proof -
  have "pt[f := v] ! g = process_id x" if "g < length pt" "covers x (int g * ps)" for g
  proof -
    have "g \<noteq> f" using that(2) assms(2) by auto
    then show ?thesis using assms(1) that by (simp add: frame_ok_def)
  qed
  then show ?thesis using assms(1) by (simp add: frame_ok_def)
qed

lemma frame_ok_prefix:
  assumes ps: "0 < ps" and ok: "frame_ok ps pt b" and fr: "is_free b"
    and lt: "start b < int f * ps" and inb: "int f * ps < start b + size_b b"
  shows "frame_ok ps (pt[f := v]) (MemoryBlock_new (start b) (int f * ps - start b) None)"
proof -
  have "pt[f := v] ! g = None"
    if g: "g < length pt" and c: "start b \<le> int g * ps" "int g * ps < int f * ps" for g
  proof -
    have "g \<noteq> f" using c by auto
    moreover have "covers b (int g * ps)" using c inb by (simp add: covers_def)
    ultimately show ?thesis using ok fr g by (simp add: frame_ok_def is_free_def)
  qed
  then show ?thesis
    using ok by (auto simp: frame_ok_def MemoryBlock_new_def covers_def)
qed

lemma frame_ok_allocated:
  assumes "0 < ps" "f < length pt"
  shows "frame_ok ps (pt[f := Some pid]) (MemoryBlock_new (int f * ps) ps (Some pid))"
proof -
  have "pt[f := Some pid] ! g = Some pid"
    if "covers (MemoryBlock_new (int f * ps) ps (Some pid)) (int g * ps)" for g
  proof -
    have "int f * ps \<le> int g * ps" "int g * ps < int f * ps + ps"
      using that by (simp_all add: covers_def MemoryBlock_new_def)
    then have "g = f" by (rule frame_unique[OF assms(1)])
    then show ?thesis using assms(2) by simp
  qed
  then show ?thesis
    by (simp add: frame_ok_def) (simp add: MemoryBlock_new_def)
qed

lemma frame_ok_suffix:
  assumes ps: "0 < ps" and ok: "frame_ok ps pt b" and fr: "is_free b"
    and le: "start b \<le> int f * ps"
  shows "frame_ok ps (pt[f := v])
           (MemoryBlock_new (int f * ps + ps) (end_b b - (int f * ps + ps) + 1) None)"
proof -
  have sz: "end_b b - (int f * ps + ps) + 1 = start b + size_b b - int f * ps - ps"
    by (simp add: end_b_def)
  have "pt[f := v] ! g = None"
    if g: "g < length pt" and c: "int f * ps + ps \<le> int g * ps"
      "int g * ps < start b + size_b b" for g
  proof -
    have "g \<noteq> f" using c ps by auto
    moreover have "covers b (int g * ps)" using c le ps by (simp add: covers_def)
    ultimately show ?thesis using ok fr g by (simp add: frame_ok_def is_free_def)
  qed
  moreover have "ps dvd start b + size_b b - int f * ps - ps"
    using ok by (simp add: frame_ok_def)
  ultimately show ?thesis
    unfolding sz by (auto simp: frame_ok_def MemoryBlock_new_def covers_def)
qed

lemma frame_ok_split_result:
  assumes ps: "0 < ps" and ok: "frame_ok ps pt b" and fr: "is_free b"
    and f: "f < length pt"
    and le: "start b \<le> int f * ps" and en: "int f * ps + ps - 1 \<le> end_b b"
    and r: "r \<in> set (split_result b (int f * ps) ps pid)"
  shows "frame_ok ps (pt[f := Some pid]) r"
proof -
  have inb: "int f * ps < start b + size_b b" using en ps by (simp add: end_b_def)
  consider (pre) "start b < int f * ps"
      "r = MemoryBlock_new (start b) (int f * ps - start b) None"
    | (alloc) "r = MemoryBlock_new (int f * ps) ps (Some pid)"
    | (post) "r = MemoryBlock_new (int f * ps + ps) (end_b b - (int f * ps + ps) + 1) None"
    using r by (auto simp: split_result_def split: if_splits)
  then show ?thesis
  proof cases
    case pre
    then show ?thesis using frame_ok_prefix[OF ps ok fr pre(1) inb] by simp
  next
    case alloc
    then show ?thesis using frame_ok_allocated[OF ps f] by simp
  next
    case post
    then show ?thesis using frame_ok_suffix[OF ps ok fr le] by simp
  qed
qed

lemma frame_ok_release:
  assumes "frame_ok ps pt b"
  shows "frame_ok ps (map (\<lambda>ow. if ow = Some pid then None else ow) pt)
           (if process_id b = Some pid then free_block b else b)"
  using assms by (auto simp: frame_ok_def free_block_def MemoryBlock_new_def covers_def)

lemma frame_ok_merged:
  assumes "frame_ok ps pt c" "frame_ok ps pt n" "is_free c" "is_free n"
    and "start n = start c + size_b c"
  shows "frame_ok ps pt (MemoryBlock_new (start c) (size_b c + size_b n) None)"
proof -
  have "pt ! g = None"
    if g: "g < length pt" and c: "start c \<le> int g * ps"
      "int g * ps < start c + (size_b c + size_b n)" for g
  proof (cases "int g * ps < start c + size_b c")
    case True
    then have "covers c (int g * ps)" using c by (simp add: covers_def)
    then show ?thesis using assms(1,3) g by (simp add: frame_ok_def is_free_def)
  next
    case False
    then have "covers n (int g * ps)" using c assms(5) by (simp add: covers_def)
    then show ?thesis using assms(2,4) g by (simp add: frame_ok_def is_free_def)
  qed
  then show ?thesis
    using assms(1,2) by (auto simp: frame_ok_def MemoryBlock_new_def covers_def)
qed

lemma frame_ok_merge:
  assumes "chain a bs z" "\<forall>b\<in>set bs. frame_ok ps pt b"
  shows "\<forall>b\<in>set (merge_adjacent_free_blocks bs). frame_ok ps pt b"
  using assms
proof (induction bs arbitrary: a rule: merge_adjacent_free_blocks.induct)
  case (1 current next_block rest)
  show ?case
  proof (cases "is_free current \<and> is_free next_block")
    case True
    have st: "start next_block = start current + size_b current"
      using "1.prems"(1) by simp
    have m: "frame_ok ps pt
               (MemoryBlock_new (start current) (size_b current + size_b next_block) None)"
      using frame_ok_merged[of ps pt current next_block] "1.prems"(2) True st by simp
    have ch: "chain a
                (MemoryBlock_new (start current) (size_b current + size_b next_block) None
                 # rest) z"
      using "1.prems"(1) by (simp add: MemoryBlock_new_def add.assoc)
    show ?thesis
      using True "1.IH"(1)[OF True ch] m "1.prems"(2) by simp
  next
    case False
    have ch: "chain (a + size_b current) (next_block # rest) z"
      using "1.prems"(1) by simp
    show ?thesis
      using False "1.IH"(2)[OF False ch] "1.prems"(2) by auto
  qed
qed simp_all

subsection \<open>The frame table and the block list under paging\<close>

lemma frame_inv_cong:
  assumes "page_size s' = page_size s" "memory_blocks s' = memory_blocks s"
    "page_table s' = page_table s"
  shows "frame_inv T ps s' = frame_inv T ps s"
  by (simp add: frame_inv_def assms)

lemma init_frame_inv:
  assumes "0 < total_size" "0 < ps" "ps dvd total_size" "init total_size ps = Inr s"
  shows "frame_inv total_size ps s"
proof -
  have s: "page_size s = ps"
    "memory_blocks s = [\<lparr>start = 0, size_b = total_size, process_id = None\<rparr>]"
    "page_table s = replicate (nat (total_size div ps)) None"
    using assms(2,4) by (auto simp: init_def MemoryBlock_new_def)
  show ?thesis
    using assms(1,3) by (simp add: frame_inv_def s frame_ok_def)
qed

lemma assign_page_frame_inv:
  assumes ps: "0 < ps" and inv: "frame_inv T ps s"
    and f: "f < length (page_table s)" and free: "page_table s ! f = None"
  shows "frame_inv T ps (assign_page pid i f s)"
proof -
  have psz: "page_size s = ps" and ch: "chain 0 (memory_blocks s) T"
    and len: "length (page_table s) = nat (T div ps)"
    and ok: "\<forall>b\<in>set (memory_blocks s). frame_ok ps (page_table s) b"
    using inv by (simp_all add: frame_inv_def)
  let ?a = "int f * ps"
  have top: "?a + ps \<le> T" using frame_below_total[OF ps, of f T] f len by simp
  have lo: "0 \<le> ?a" using ps by simp
  have hi: "?a < T" using top ps by simp
  obtain c where c: "c \<in> set (memory_blocks s)" "covers c ?a"
    using chain_covers[OF ch lo hi] by blast
  have okc: "frame_ok ps (page_table s) c" using ok c(1) by simp
  have cfree: "is_free c"
    using okc c(2) f free by (simp add: frame_ok_def is_free_def)
  have cend: "?a + ps \<le> start c + size_b c"
    using frame_end_in_block[OF ps _ _ c(2)] okc by (simp add: frame_ok_def)
  show ?thesis
  proof (cases pid i f s rule: assign_page_blocks)
    case unchanged
    have "is_free c \<and> start c \<le> ?a \<and> ?a + ps - 1 \<le> end_b c"
      using cfree c(2) cend by (simp add: covers_def end_b_def)
    then show ?thesis using unchanged(2) c(1) by (auto simp: psz)
  next
    case (split xs b ys)
    have bs: "memory_blocks s = xs @ b # ys" by (rule split(1))
    have le: "start b \<le> ?a" and en: "?a + ps - 1 \<le> end_b b"
      using split(3,4) by (simp_all add: psz)
    have new: "memory_blocks (assign_page pid i f s) = xs @ split_result b ?a ps pid @ ys"
      using split(5) by (simp add: psz)
    have inb: "?a < start b + size_b b" using en ps by (simp add: end_b_def)
    have chx: "chain 0 xs (start b)" and chy: "chain (start b + size_b b) ys T"
      using ch by (auto simp: bs chain_append)
    have okb: "frame_ok ps (page_table s) b" using ok by (simp add: bs)
    have ch': "chain 0 (xs @ split_result b ?a ps pid @ ys) T"
      using ch chain_split_result0[OF ps le en, of pid] split_result_sum[OF le en, of pid]
      by (auto simp: bs chain_append)
    have "frame_ok ps ((page_table s)[f := Some pid]) r"
      if r: "r \<in> set (xs @ split_result b ?a ps pid @ ys)" for r
    proof -
      consider (x) "r \<in> set xs" | (m) "r \<in> set (split_result b ?a ps pid)" | (y) "r \<in> set ys"
        using r by auto
      then show ?thesis
      proof cases
        case x
        have "start r + size_b r \<le> start b" using chain_bounds[OF chx x] by simp
        then have "\<not> covers r ?a" using le by (simp add: covers_def)
        moreover have "frame_ok ps (page_table s) r" using ok x by (simp add: bs)
        ultimately show ?thesis by (rule frame_ok_update_other[rotated])
      next
        case m
        show ?thesis by (rule frame_ok_split_result[OF ps okb split(2) f le en m])
      next
        case y
        have "start b + size_b b \<le> start r" using chain_bounds[OF chy y] by simp
        then have "\<not> covers r ?a" using inb by (simp add: covers_def)
        moreover have "frame_ok ps (page_table s) r" using ok y by (simp add: bs)
        ultimately show ?thesis by (rule frame_ok_update_other[rotated])
      qed
    qed
    then show ?thesis
      using ch' len psz by (simp add: frame_inv_def new)
  qed
qed

lemma fold_assign_page_frame_inv:
  assumes "0 < ps" and "frame_inv T ps s" and "distinct (map g js)"
    and "\<forall>j\<in>set js. g j < length (page_table s) \<and> page_table s ! g j = None"
  shows "frame_inv T ps (fold (\<lambda>i. assign_page pid i (g i)) js s)"
  using assms(2-)
proof (induction js arbitrary: s)
  case Nil
  then show ?case by simp
next
  case (Cons j js)
  let ?s' = "assign_page pid j (g j) s"
  have a: "frame_inv T ps ?s'"
    using Cons.prems by (intro assign_page_frame_inv[OF assms(1)]) simp_all
  have b: "distinct (map g js)" using Cons.prems(2) by simp
  have c: "\<forall>k\<in>set js. g k < length (page_table ?s') \<and> page_table ?s' ! g k = None"
  proof
    fix k assume k: "k \<in> set js"
    have "g j \<notin> g ` set js" using Cons.prems(2) by simp
    with k have "g k \<noteq> g j" by (metis imageI)
    then show "g k < length (page_table ?s') \<and> page_table ?s' ! g k = None"
      using Cons.prems(3) k by simp
  qed
  show ?case using Cons.IH[OF a b c] by simp
qed

lemma map_nth_take: "n \<le> length xs \<Longrightarrow> map (\<lambda>i. xs ! i) [0..<n] = take n xs"
  by (rule nth_equalityI) simp_all

lemma deallocate_frame_inv:
  assumes wf: "wf_state s" and inv: "frame_inv T ps s" and live: "processes s pid = Some pr"
  shows "frame_inv T ps (snd (deallocate_process s pid))"
proof -
  let ?pt' = "map (\<lambda>ow. if ow = Some pid then None else ow) (page_table s)"
  have ch: "chain 0 (release_blocks pid (memory_blocks s)) T"
    using inv by (simp add: frame_inv_def)
  have "\<forall>b\<in>set (release_blocks pid (memory_blocks s)). frame_ok ps ?pt' b"
  proof
    fix r assume "r \<in> set (release_blocks pid (memory_blocks s))"
    then obtain b where b: "b \<in> set (memory_blocks s)"
      "r = (if process_id b = Some pid then free_block b else b)"
      unfolding release_blocks_def by auto
    have "frame_ok ps (page_table s) b" using inv b(1) by (simp add: frame_inv_def)
    then show "frame_ok ps ?pt' r" unfolding b(2) by (rule frame_ok_release)
  qed
  then have "\<forall>b\<in>set (merge_adjacent_free_blocks (release_blocks pid (memory_blocks s))).
               frame_ok ps ?pt' b"
    by (rule frame_ok_merge[OF ch])
  then show ?thesis
    using inv chain_merge[OF ch]
    by (simp add: deallocate_process_wf[OF wf live] frame_inv_def)
qed

lemma call_frame_inv:
  assumes ps: "0 < ps" and wf: "wf_state s" and inv: "frame_inv T ps s"
    and pg: "uses_paging c"
  shows "frame_inv T ps (snd (call c s))"
proof (cases c)
  case (Deallocate pid)
  show ?thesis
  proof (cases "processes s pid")
    case None
    show ?thesis
      using deallocate_unknown[OF None] inv
        frame_inv_cong[of "snd (deallocate_process s pid)" s]
      by (simp add: Deallocate)
  next
    case (Some pr)
    then show ?thesis using deallocate_frame_inv[OF wf inv Some] by (simp add: Deallocate)
  qed
next
  case (Allocate pid sz meth)
  have meth: "meth = PAGING" using pg by (simp add: Allocate)
  show ?thesis
  proof (cases "processes s pid = None")
    case False
    show ?thesis
      using allocate_duplicate[OF False, of sz meth] inv
        frame_inv_cong[of "snd (allocate_process s pid sz meth)" s]
      by (simp add: Allocate)
  next
    case fresh: True
    show ?thesis
    proof (cases "int (length (free_frames (page_table s))) < num_pages_needed s sz")
      case True
      show ?thesis
        using allocate_paging_fail[OF fresh True] inv
          frame_inv_cong[of "snd (allocate_process s pid sz PAGING)" s]
        by (simp add: Allocate meth)
    next
      case False
      define n where "n = nat (num_pages_needed s sz)"
      define ff where "ff = free_frames (page_table s)"
      define s1 where "s1 = s\<lparr>processes := (processes s)(pid \<mapsto>
                        \<lparr>proc_id = pid, proc_size = sz, pages = [], segments = []\<rparr>)\<rparr>"
      define s2 where "s2 = fold (\<lambda>i. assign_page pid i (ff ! i)) [0..<n] s1"
      have le: "n \<le> length ff" using False by (simp add: n_def ff_def)
      have S: "page_size (snd (allocate_process s pid sz PAGING)) = page_size s2"
        "memory_blocks (snd (allocate_process s pid sz PAGING)) = memory_blocks s2"
        "page_table (snd (allocate_process s pid sz PAGING)) = page_table s2"
        using allocate_paging_success[OF fresh False]
        by (simp_all add: Let_def s2_def s1_def n_def ff_def)
      have inv1: "frame_inv T ps s1" using inv by (simp add: frame_inv_def s1_def)
      have d: "distinct (map (\<lambda>i. ff ! i) [0..<n])"
        using le by (simp add: map_nth_take ff_def free_frames_distinct)
      have e: "\<forall>j\<in>set [0..<n]. ff ! j < length (page_table s1) \<and> page_table s1 ! (ff ! j) = None"
      proof
        fix j assume "j \<in> set [0..<n]"
        then have "ff ! j \<in> set ff" using le by simp
        then show "ff ! j < length (page_table s1) \<and> page_table s1 ! (ff ! j) = None"
          by (simp add: ff_def free_frames_set s1_def)
      qed
      have "frame_inv T ps s2"
        unfolding s2_def by (rule fold_assign_page_frame_inv[OF ps inv1 d e])
      then show ?thesis
        using frame_inv_cong[OF S] by (simp add: Allocate meth)
    qed
  qed
qed

lemma run_frame_inv:
  assumes "0 < ps" and "wf_state s" and "frame_inv T ps s" and "\<forall>c\<in>set cs. uses_paging c"
  shows "frame_inv T ps (run s cs)"
  using assms(2-)
proof (induction cs arbitrary: s)
  case Nil
  then show ?case by (simp add: run_Nil)
next
  case (Cons c cs)
  have "frame_inv T ps (snd (call c s))"
    using Cons.prems by (intro call_frame_inv[OF assms(1)]) simp_all
  moreover have "wf_state (snd (call c s))" using Cons.prems(1) by (rule call_wf)
  ultimately show ?case using Cons.IH Cons.prems(3) by (simp add: run_Cons)
qed

lemma frame_inv_frames_agree:
  assumes ps: "0 < ps" and inv: "frame_inv T ps s"
  shows "frames_agree s"
  unfolding frames_agree_def
proof (intro allI impI)
  fix f ow assume f: "f < length (page_table s)"
  have psz: "page_size s = ps" and ch: "chain 0 (memory_blocks s) T"
    and len: "length (page_table s) = nat (T div ps)"
    and ok: "\<forall>b\<in>set (memory_blocks s). frame_ok ps (page_table s) b"
    using inv by (simp_all add: frame_inv_def)
  let ?a = "int f * ps"
  have span: "(int f + 1) * ps = ?a + ps" by (simp add: algebra_simps)
  show "(page_table s ! f = ow) =
          span_owned_by (memory_blocks s) (int f * page_size s) ((int f + 1) * page_size s) ow"
    unfolding psz span
  proof
    assume eq: "page_table s ! f = ow"
    have top: "?a + ps \<le> T" using frame_below_total[OF ps, of f T] f len by simp
    have lo: "0 \<le> ?a" using ps by simp
    have hi: "?a < T" using top ps by simp
    obtain c where c: "c \<in> set (memory_blocks s)" "covers c ?a"
      using chain_covers[OF ch lo hi] by blast
    have okc: "frame_ok ps (page_table s) c" using ok c(1) by simp
    have own: "process_id c = ow" using okc c(2) f eq by (simp add: frame_ok_def)
    have cend: "?a + ps \<le> start c + size_b c"
      using frame_end_in_block[OF ps _ _ c(2)] okc by (simp add: frame_ok_def)
    show "span_owned_by (memory_blocks s) ?a (?a + ps) ow"
      unfolding span_owned_by_def
    proof
      fix a assume "a \<in> {?a..<?a + ps}"
      then have "covers c a" using c(2) cend by (simp add: covers_def)
      then show "\<exists>b\<in>set (memory_blocks s). covers b a \<and> process_id b = ow"
        using c(1) own by blast
    qed
  next
    assume sp: "span_owned_by (memory_blocks s) ?a (?a + ps) ow"
    have "?a \<in> {?a..<?a + ps}" using ps by simp
    then obtain b where b: "b \<in> set (memory_blocks s)" "covers b ?a" "process_id b = ow"
      using sp unfolding span_owned_by_def by blast
    then show "page_table s ! f = ow"
      using ok f by (auto simp: frame_ok_def)
  qed
qed

subsection \<open>C3: agreement of the frame table with the block list\<close>

text \<open>
  Claim C3 as stated fails. After one segmentation request of 4 units on a new engine
  with 4-unit pages, the span of frame 0 is the range owned by process 1, but frame 0 is
  unowned in the frame table: the segmentation path never writes the frame table.
\<close>

theorem segmentation_breaks_frame_agreement:
  "page_table (run engine_16_4 [Allocate 1 4 SEGMENTATION]) ! 0 = None
   \<and> memory_blocks (run engine_16_4 [Allocate 1 4 SEGMENTATION]) =
       [\<lparr>start = 0, size_b = 4, process_id = Some 1\<rparr>,
        \<lparr>start = 4, size_b = 12, process_id = None\<rparr>]
   \<and> \<not> frames_agree (run engine_16_4 [Allocate 1 4 SEGMENTATION])"
proof -
  let ?s = "run engine_16_4 [Allocate 1 4 SEGMENTATION]"
  have pt: "page_table ?s = [None, None, None, None]"
    and bs: "memory_blocks ?s =
       [\<lparr>start = 0, size_b = 4, process_id = Some 1\<rparr>,
        \<lparr>start = 4, size_b = 12, process_id = None\<rparr>]"
    and psz: "page_size ?s = 4"
    by (simp_all add: engine_16_4_eq engine_defs)
  have sp: "span_owned_by (memory_blocks ?s) 0 4 (Some 1)"
    by (auto simp: bs span_owned_by_def covers_def)
  have "\<not> frames_agree ?s"
  proof
    assume a: "frames_agree ?s"
    have l: "0 < length (page_table ?s)" by (simp add: pt)
    have "(page_table ?s ! 0 = Some 1) =
                 span_owned_by (memory_blocks ?s) (int 0 * page_size ?s)
                   ((int 0 + 1) * page_size ?s) (Some 1)"
      using a[unfolded frames_agree_def, rule_format, OF l, of "Some 1"] .
    then show False using sp by (simp add: psz pt)
  qed
  then show ?thesis by (simp add: pt bs)
qed

text \<open>
  Claim C3, amended. On an engine constructed with positive total size and a positive
  page size that divides it, after every history of calls that uses only the paging
  strategy (paging allocations of any size and deallocations), each frame's entry in the
  frame table is the owner field of the blocks covering the frame's address span: the
  frame is owned by process \<open>p\<close> exactly when every address of its span lies in a
  block owned by \<open>p\<close>, and unowned exactly when every address of its span lies in a
  free block.
\<close>

theorem paging_frames_agree:
  assumes "0 < total_size" and "0 < ps" and "ps dvd total_size"
    and "init total_size ps = Inr s0" and "\<forall>c\<in>set cs. uses_paging c"
  shows "frames_agree (run s0 cs)"
proof -
  have "frame_inv total_size ps s0" using assms(1-4) by (rule init_frame_inv)
  moreover have "wf_state s0" using assms(4) by (rule init_wf)
  ultimately have "frame_inv total_size ps (run s0 cs)"
    using run_frame_inv[OF assms(2)] assms(5) by blast
  then show ?thesis using frame_inv_frames_agree[OF assms(2)] by blast
qed

theorem paging_frames_agree_witness:
  "frames_agree (run engine_16_4 [Allocate 1 6 PAGING, Allocate 2 4 PAGING, Deallocate 1])"
proof -
  have i: "init 16 4 = Inr engine_16_4" by (simp add: engine_16_4_def init_def)
  show ?thesis
    using paging_frames_agree[OF _ _ _ i,
        of "[Allocate 1 6 PAGING, Allocate 2 4 PAGING, Deallocate 1]"]
    by simp
qed


end
